theory Spec2Isabelle
  imports Main
begin

unbundle bit_operations_syntax

section \<open>Errors\<close>

text \<open>
  The source raises \<open>ValueError\<close> with a message for every failure of its own, and
  Python raises \<open>IndexError\<close> for a list index out of range. Each message is a
  constructor; \<open>ParseFailed e\<close> is the wrapper \<open>"Failed to parse share: {e}"\<close>.
\<close>

text \<open>The messages of the two validators; the empty message is \<open>NoMessage\<close>.\<close>

datatype message =
    NoMessage
  | MustBeIntegers
  | TotalSharesAtLeast2
  | TotalSharesExceed255
  | ThresholdAtLeast2
  | ThresholdExceedsTotal
  | SecretAtLeast nat
  | SecretCannotExceed nat
  | SecretNullBytes

datatype error =
    NoPoints
  | DuplicateX
  | DivByZero
  | IndexError
  | BadAlphabet char
  | ShareTooShort
  | InvalidShareId
  | LengthMismatch
  | ParseFailed error
  | InvalidParams message
  | InvalidSecret message
  | NoShares
  | NoValidShares
  | InconsistentLengths
  | InvalidShareFormat
  | InvalidValuesLength
  | BadHex
  | BadUtf8
  | ByteRange
  | Overflow
  | EncodeError
  | TypeError

definition ebind :: "error + 'a \<Rightarrow> ('a \<Rightarrow> error + 'b) \<Rightarrow> error + 'b" where
  "ebind m f = (case m of Inl e \<Rightarrow> Inl e | Inr x \<Rightarrow> f x)"

text \<open>Python list indexing: a negative index counts from the end.\<close>

definition py_index :: "'a list \<Rightarrow> int \<Rightarrow> error + 'a" where
  "py_index xs i =
     (let n = int (length xs); j = (if i < 0 then i + n else i)
      in if 0 \<le> j \<and> j < n then Inr (xs ! nat j) else Inl IndexError)"

section \<open>GF(256) arithmetic\<close>

definition POLYNOMIAL :: nat where
  "POLYNOMIAL = 0x11b"

text \<open>
  \<open>_gf_mult_basic\<close>: the loop \<open>while b\<close> ends only for \<open>b \<ge> 0\<close>, and its one call
  site passes a table entry and 3, so the operands are naturals.
\<close>

function gf_mult_basic_loop :: "nat \<Rightarrow> nat \<Rightarrow> nat \<Rightarrow> nat" where
  "gf_mult_basic_loop a b result =
     (if b = 0 then result
      else let result' = (if b AND 1 \<noteq> 0 then result XOR a else result);
               a' = push_bit 1 a;
               a'' = (if a' AND 0x100 \<noteq> 0 then a' XOR POLYNOMIAL else a')
           in gf_mult_basic_loop a'' (drop_bit 1 b) result')"
  by pat_completeness auto
termination
  by (relation "measure (\<lambda>(a, b, r). b)") (auto simp: drop_bit_eq_div)

declare gf_mult_basic_loop.simps [simp del]

definition gf_mult_basic :: "nat \<Rightarrow> nat \<Rightarrow> nat" where
  "gf_mult_basic a b = gf_mult_basic_loop a b 0 AND 0xff"

text \<open>
  \<open>_build_tables\<close>: the first loop over \<open>range(255)\<close> fills the exponential table and
  the wrap entry 255; the second fills the logarithm table from it.
\<close>

definition build_exp_table :: "int list" where
  "build_exp_table =
     (let (x, t) =
            fold (\<lambda>i (x, t). (gf_mult_basic x 3, t[i := int x])) [0..<255]
              (1, replicate 256 0)
      in t[255 := t ! 0])"

definition exp_table :: "int list" where
  "exp_table = build_exp_table"

definition build_log_table :: "int list" where
  "build_log_table =
     fold (\<lambda>i t. t[nat (exp_table ! i) := int i]) [0..<255] (replicate 256 0)"

definition log_table :: "int list" where
  "log_table = build_log_table"

definition gf_mult :: "int \<Rightarrow> int \<Rightarrow> error + int" where
  "gf_mult a b =
     (if a = 0 \<or> b = 0 then Inr 0
      else ebind (py_index log_table a) (\<lambda>la.
           ebind (py_index log_table b) (\<lambda>lb.
           py_index exp_table ((la + lb) mod 255))))"

definition gf_div :: "int \<Rightarrow> int \<Rightarrow> error + int" where
  "gf_div a b =
     (if a = 0 then Inr 0
      else if b = 0 then Inl DivByZero
      else ebind (py_index log_table a) (\<lambda>la.
           ebind (py_index log_table b) (\<lambda>lb.
           py_index exp_table ((la - lb) mod 255))))"

section \<open>Base62 codec\<close>

definition BASE62_ALPHABET :: string where
  "BASE62_ALPHABET = ''0123456789ABCDEFGHIJKLMNOPQRSTUVWXYZabcdefghijklmnopqrstuvwxyz''"

text \<open>
  Python's \<open>int.from_bytes(data, 'big')\<close>, \<open>int.bit_length()\<close>,
  \<open>int.to_bytes(length, 'big')\<close> and \<open>str.index\<close>, on naturals: a \<open>bytes\<close> object
  holds values in \<open>0..255\<close> and the numbers of the codec are never negative.
\<close>

definition from_bytes :: "nat list \<Rightarrow> nat" where
  "from_bytes data = foldl (\<lambda>acc b. acc * 256 + b) 0 data"

function bit_length :: "nat \<Rightarrow> nat" where
  "bit_length n = (if n = 0 then 0 else Suc (bit_length (n div 2)))"
  by pat_completeness auto
termination
  by (relation "measure id") auto

declare bit_length.simps [simp del]

fun to_bytes_digits :: "nat \<Rightarrow> nat \<Rightarrow> nat list" where
  "to_bytes_digits n 0 = []"
| "to_bytes_digits n (Suc k) = to_bytes_digits (n div 256) k @ [n mod 256]"

definition to_bytes :: "nat \<Rightarrow> nat \<Rightarrow> error + nat list" where
  "to_bytes n len = (if n < 256 ^ len then Inr (to_bytes_digits n len) else Inl Overflow)"

fun str_index :: "string \<Rightarrow> char \<Rightarrow> nat" where
  "str_index [] c = 0"
| "str_index (d # ds) c = (if d = c then 0 else Suc (str_index ds c))"

function encode_loop :: "nat \<Rightarrow> string \<Rightarrow> string" where
  "encode_loop num result =
     (if num > 0 then encode_loop (num div 62) (BASE62_ALPHABET ! (num mod 62) # result)
      else result)"
  by pat_completeness auto
termination
  by (relation "measure (\<lambda>(num, result). num)") auto

declare encode_loop.simps [simp del]

definition encode_base62 :: "nat list \<Rightarrow> string" where
  "encode_base62 data =
     (if data = [] then []
      else let num = from_bytes data
           in if num = 0 then [BASE62_ALPHABET ! 0] else encode_loop num [])"

fun decode_loop :: "string \<Rightarrow> nat \<Rightarrow> error + nat" where
  "decode_loop [] num = Inr num"
| "decode_loop (c # cs) num =
     (if c \<notin> set BASE62_ALPHABET then Inl (BadAlphabet c)
      else decode_loop cs (num * 62 + str_index BASE62_ALPHABET c))"

definition decode_base62 :: "string \<Rightarrow> error + nat list" where
  "decode_base62 encoded =
     (if encoded = [] then Inr []
      else ebind (decode_loop encoded 0) (\<lambda>num.
             if num = 0 then Inr [0]
             else let byte_length = (bit_length num + 7) div 8 in to_bytes num byte_length))"

section \<open>Secure random source\<close>

text \<open>
  The entropy source is the stream of raw draws of \<open>secrets.randbelow\<close>: the draw at
  position \<open>pos\<close> reduced into the requested range. The position is the state. The
  operating system's source is taken to be available, so that the self-test
  \<open>verify_csprng\<close> before each draw passes.
\<close>

type_synonym rng = "nat \<Rightarrow> nat"

definition secure_random_int :: "rng \<Rightarrow> nat \<Rightarrow> nat \<Rightarrow> nat \<Rightarrow> nat \<times> nat" where
  "secure_random_int rs min_val max_val pos =
     (rs pos mod (max_val - min_val + 1) + min_val, Suc pos)"

text \<open>\<open>for _ in range(n): buf.append(secure_random_int(1, 255))\<close>\<close>

fun random_fill :: "rng \<Rightarrow> nat \<Rightarrow> nat \<Rightarrow> nat list \<Rightarrow> nat list \<times> nat" where
  "random_fill rs 0 pos buf = (buf, pos)"
| "random_fill rs (Suc n) pos buf =
     (let (v, pos') = secure_random_int rs 1 255 pos in random_fill rs n pos' (buf @ [v]))"

section \<open>Share framing\<close>

definition format_share_with_original_length ::
    "rng \<Rightarrow> int \<Rightarrow> nat list \<Rightarrow> nat \<Rightarrow> nat \<Rightarrow> error + (string \<times> nat)" where
  "format_share_with_original_length rs share_id share_data original_secret_length pos =
     (let padded_length = length share_data
      in if share_id < 0 \<or> 256 \<le> share_id then Inl ByteRange
         else ebind (to_bytes original_secret_length 2) (\<lambda>l_bytes.
              ebind (to_bytes padded_length 2) (\<lambda>p_bytes.
                let header = [nat share_id] @ l_bytes @ p_bytes;
                    base_data = header @ share_data;
                    encoded = encode_base62 base_data
                in if length encoded < 250 then
                     let padding_needed = 250 - length encoded;
                         (additional_padding, pos') =
                            random_fill rs (padding_needed div 3 + 10) pos [];
                         padding_encoded = encode_base62 additional_padding;
                         encoded' = encoded @ padding_encoded
                     in Inr (if length encoded' > 250 then take 250 encoded' else encoded', pos')
                   else Inr (encoded, pos))))"

definition parse_base62_share_body :: "string \<Rightarrow> error + (nat \<times> nat list)" where
  "parse_base62_share_body share_str =
     ebind (decode_base62 share_str) (\<lambda>decoded_bytes.
       if length decoded_bytes < 5 then
         (if length decoded_bytes \<ge> 2 \<and> decoded_bytes ! 0 \<ge> 1 \<and> decoded_bytes ! 0 \<le> 255
          then Inr (decoded_bytes ! 0, take (decoded_bytes ! 1) (drop 2 decoded_bytes))
          else Inl ShareTooShort)
       else
         let share_id = decoded_bytes ! 0;
             original_length = from_bytes (take 2 (drop 1 decoded_bytes));
             padded_length = from_bytes (take 2 (drop 3 decoded_bytes))
         in if share_id < 1 \<or> share_id > 255 then Inl InvalidShareId
            else let share_data = drop 5 decoded_bytes
                 in if length share_data \<noteq> padded_length then Inl LengthMismatch
                    else Inr (share_id, take original_length share_data))"

text \<open>\<open>except Exception as e: raise ValueError(f"Failed to parse share: {e}")\<close>\<close>

definition parse_base62_share :: "string \<Rightarrow> error + (nat \<times> nat list)" where
  "parse_base62_share share_str =
     (case parse_base62_share_body share_str of
        Inl e \<Rightarrow> Inl (ParseFailed e)
      | Inr r \<Rightarrow> Inr r)"

section \<open>Validators\<close>

text \<open>
  A Python argument of \<open>validate_share_parameters\<close>: an \<open>int\<close>, a \<open>bool\<close> (which
  \<open>isinstance(_, int)\<close> accepts and compares as 0 or 1), or a value of any other type.
\<close>

datatype pyval = PyInt int | PyBool bool | PyOther

fun as_int :: "pyval \<Rightarrow> int option" where
  "as_int (PyInt i) = Some i"
| "as_int (PyBool b) = Some (if b then 1 else 0)"
| "as_int PyOther = None"

definition validate_share_parameters :: "pyval \<Rightarrow> pyval \<Rightarrow> bool \<times> message" where
  "validate_share_parameters total_shares threshold =
     (case (as_int total_shares, as_int threshold) of
        (Some n, Some k) \<Rightarrow>
          if n < 2 then (False, TotalSharesAtLeast2)
          else if n > 255 then (False, TotalSharesExceed255)
          else if k < 2 then (False, ThresholdAtLeast2)
          else if k > n then (False, ThresholdExceedsTotal)
          else (True, NoMessage)
      | _ \<Rightarrow> (False, MustBeIntegers))"

text \<open>
  A Python \<open>str\<close> is its list of code points. \<open>validate_secret_length\<close> on a value that
  is a string: the \<open>isinstance\<close> test passes.
\<close>

type_synonym pystr = "nat list"

definition validate_secret_length :: "pystr \<Rightarrow> nat \<Rightarrow> nat \<Rightarrow> bool \<times> message" where
  "validate_secret_length secret min_length max_length =
     (if length secret < min_length then (False, SecretAtLeast min_length)
      else if length secret > max_length then (False, SecretCannotExceed max_length)
      else if 0 \<in> set secret then (False, SecretNullBytes)
      else (True, NoMessage))"

section \<open>UTF-8\<close>

text \<open>
  Python's \<open>str.encode('utf-8')\<close> and \<open>bytes.decode('utf-8')\<close> (strict), after the
  Unicode standard: surrogates are not encodable; overlong forms, surrogates and values
  above \<open>0x10FFFF\<close> are not decodable.
\<close>

definition utf8_encode_cp :: "nat \<Rightarrow> error + nat list" where
  "utf8_encode_cp c =
     (if c < 0x80 then Inr [c]
      else if c < 0x800 then Inr [0xC0 + c div 64, 0x80 + c mod 64]
      else if c < 0x10000 then
        (if 0xD800 \<le> c \<and> c < 0xE000 then Inl EncodeError
         else Inr [0xE0 + c div 4096, 0x80 + c div 64 mod 64, 0x80 + c mod 64])
      else if c < 0x110000 then
        Inr [0xF0 + c div 262144, 0x80 + c div 4096 mod 64, 0x80 + c div 64 mod 64,
             0x80 + c mod 64]
      else Inl EncodeError)"

fun utf8_encode :: "pystr \<Rightarrow> error + nat list" where
  "utf8_encode [] = Inr []"
| "utf8_encode (c # cs) =
     ebind (utf8_encode_cp c) (\<lambda>bs. ebind (utf8_encode cs) (\<lambda>rest. Inr (bs @ rest)))"

definition is_cont :: "nat \<Rightarrow> bool" where
  "is_cont b = (0x80 \<le> b \<and> b < 0xC0)"

fun utf8_decode :: "nat list \<Rightarrow> error + pystr" where
  "utf8_decode [] = Inr []"
| "utf8_decode (b0 # bs) =
     (if b0 < 0x80 then ebind (utf8_decode bs) (\<lambda>r. Inr (b0 # r))
      else if 0xC0 \<le> b0 \<and> b0 < 0xE0 then
        (case bs of
           b1 # r1 \<Rightarrow>
             (let cp = (b0 - 0xC0) * 64 + (b1 - 0x80)
              in if is_cont b1 \<and> 0x80 \<le> cp
                 then ebind (utf8_decode r1) (\<lambda>r. Inr (cp # r)) else Inl BadUtf8)
         | _ \<Rightarrow> Inl BadUtf8)
      else if 0xE0 \<le> b0 \<and> b0 < 0xF0 then
        (case bs of
           b1 # b2 # r2 \<Rightarrow>
             (let cp = (b0 - 0xE0) * 4096 + (b1 - 0x80) * 64 + (b2 - 0x80)
              in if is_cont b1 \<and> is_cont b2 \<and> 0x800 \<le> cp \<and> \<not> (0xD800 \<le> cp \<and> cp < 0xE000)
                 then ebind (utf8_decode r2) (\<lambda>r. Inr (cp # r)) else Inl BadUtf8)
         | _ \<Rightarrow> Inl BadUtf8)
      else if 0xF0 \<le> b0 \<and> b0 < 0xF8 then
        (case bs of
           b1 # b2 # b3 # r3 \<Rightarrow>
             (let cp = (b0 - 0xF0) * 262144 + (b1 - 0x80) * 4096 + (b2 - 0x80) * 64 + (b3 - 0x80)
              in if is_cont b1 \<and> is_cont b2 \<and> is_cont b3 \<and> 0x10000 \<le> cp \<and> cp < 0x110000
                 then ebind (utf8_decode r3) (\<lambda>r. Inr (cp # r)) else Inl BadUtf8)
         | _ \<Rightarrow> Inl BadUtf8)
      else Inl BadUtf8)"

section \<open>Polynomial evaluation and Lagrange interpolation\<close>

text \<open>\<open>for coeff in reversed(coefficients): result = mult(result, x) ^ coeff\<close>\<close>

fun evaluate_loop :: "int list \<Rightarrow> int \<Rightarrow> int \<Rightarrow> error + int" where
  "evaluate_loop [] x result = Inr result"
| "evaluate_loop (coeff # cs) x result =
     ebind (gf_mult result x) (\<lambda>m. evaluate_loop cs x (m XOR coeff))"

definition evaluate_polynomial :: "int list \<Rightarrow> int \<Rightarrow> error + int" where
  "evaluate_polynomial coefficients x = evaluate_loop (rev coefficients) x 0"

text \<open>
  The inner loop \<open>for j, (xj, _) in enumerate(points)\<close> at outer index \<open>i\<close>, from
  position \<open>j\<close>, and the outer loop \<open>for i, (xi, yi) in enumerate(points)\<close>.
\<close>

fun lagrange_inner :: "(int \<times> int) list \<Rightarrow> nat \<Rightarrow> nat \<Rightarrow> int \<Rightarrow> int \<Rightarrow> int \<Rightarrow> error + int" where
  "lagrange_inner [] i j xi x li = Inr li"
| "lagrange_inner ((xj, yj) # ps) i j xi x li =
     (if i \<noteq> j then
        (if xi = xj then Inl DuplicateX
         else ebind (gf_div (x XOR xj) (xi XOR xj)) (\<lambda>q.
              ebind (gf_mult li q) (\<lambda>li'. lagrange_inner ps i (Suc j) xi x li')))
      else lagrange_inner ps i (Suc j) xi x li)"

fun lagrange_outer :: "(int \<times> int) list \<Rightarrow> (int \<times> int) list \<Rightarrow> nat \<Rightarrow> int \<Rightarrow> int \<Rightarrow> error + int" where
  "lagrange_outer points [] i x result = Inr result"
| "lagrange_outer points ((xi, yi) # ps) i x result =
     ebind (lagrange_inner points i 0 xi x 1) (\<lambda>li.
     ebind (gf_mult yi li) (\<lambda>t. lagrange_outer points ps (Suc i) x (result XOR t)))"

definition lagrange_interpolation :: "(int \<times> int) list \<Rightarrow> int \<Rightarrow> error + int" where
  "lagrange_interpolation points x =
     (if points = [] then Inl NoPoints else lagrange_outer points points 0 x 0)"

section \<open>Splitting\<close>

text \<open>\<open>bytes(values)\<close>: every element must be in \<open>range(256)\<close>.\<close>

definition bytes_of :: "int list \<Rightarrow> error + nat list" where
  "bytes_of vs = (if \<forall>v\<in>set vs. 0 \<le> v \<and> v < 256 then Inr (map nat vs) else Inl ByteRange)"

text \<open>
  The loop \<open>for share_index in range(1, total_shares + 1)\<close> at one byte position: the
  first position creates the share structures, later ones append to them.
\<close>

fun share_loop :: "int list \<Rightarrow> nat \<Rightarrow> int list \<Rightarrow> int list list \<Rightarrow> error + int list list" where
  "share_loop coefficients byte_index [] shares = Inr shares"
| "share_loop coefficients byte_index (share_index # rest) shares =
     ebind (evaluate_polynomial coefficients share_index) (\<lambda>share_value.
       if byte_index = 0
       then share_loop coefficients byte_index rest (shares @ [[share_index, share_value]])
       else ebind (py_index shares (share_index - 1)) (\<lambda>share.
              share_loop coefficients byte_index rest
                (shares[nat (share_index - 1) := share @ [share_value]])))"

text \<open>The loop \<open>for byte_index in range(len(secret_bytes))\<close>, threading the entropy position.\<close>

fun byte_loop ::
    "rng \<Rightarrow> int \<Rightarrow> int \<Rightarrow> nat list \<Rightarrow> nat \<Rightarrow> nat \<Rightarrow> int list list \<Rightarrow> error + (int list list \<times> nat)" where
  "byte_loop rs total_shares threshold [] byte_index pos shares = Inr (shares, pos)"
| "byte_loop rs total_shares threshold (byte_value # rest) byte_index pos shares =
     (let (random_coeffs, pos') = random_fill rs (nat (threshold - 1)) pos [];
          coefficients = int byte_value # map int random_coeffs
      in ebind (share_loop coefficients byte_index (map int [1..<Suc (nat total_shares)]) shares)
           (\<lambda>shares'. byte_loop rs total_shares threshold rest (Suc byte_index) pos' shares'))"

text \<open>The loop \<open>for share in shares\<close> that frames and encodes each share.\<close>

fun encode_shares ::
    "rng \<Rightarrow> int list list \<Rightarrow> nat \<Rightarrow> nat \<Rightarrow> string list \<Rightarrow> error + (string list \<times> nat)" where
  "encode_shares rs [] original_length pos encoded_shares = Inr (encoded_shares, pos)"
| "encode_shares rs (share # rest) original_length pos encoded_shares =
     (case share of
        [] \<Rightarrow> Inl IndexError
      | share_id # share_values \<Rightarrow>
          ebind (bytes_of share_values) (\<lambda>share_bytes.
          ebind (format_share_with_original_length rs share_id share_bytes original_length pos)
            (\<lambda>(encoded_share, pos').
               encode_shares rs rest original_length pos' (encoded_shares @ [encoded_share]))))"

definition generate_shares ::
    "rng \<Rightarrow> pystr \<Rightarrow> int \<Rightarrow> int \<Rightarrow> nat \<Rightarrow> error + (string list \<times> nat)" where
  "generate_shares rs secret total_shares threshold pos =
     (case validate_share_parameters (PyInt total_shares) (PyInt threshold) of
        (False, msg) \<Rightarrow> Inl (InvalidParams msg)
      | (True, _) \<Rightarrow>
     (case validate_secret_length secret 1 10000 of
        (False, msg) \<Rightarrow> Inl (InvalidSecret msg)
      | (True, _) \<Rightarrow>
          ebind (utf8_encode secret) (\<lambda>secret_bytes.
            let original_length = length secret_bytes;
                min_bytes_for_250_chars = 200;
                (padded_bytes, pos1) =
                  (if length secret_bytes < min_bytes_for_250_chars
                   then (let (padding, p) =
                               random_fill rs (min_bytes_for_250_chars - length secret_bytes) pos []
                         in (secret_bytes @ padding, p))
                   else (secret_bytes, pos))
            in ebind (byte_loop rs total_shares threshold padded_bytes 0 pos1 [])
                 (\<lambda>(shares, pos2). encode_shares rs shares original_length pos2 []))))"

section \<open>Reconstruction\<close>

text \<open>
  The legacy dash-separated hex format. Python's \<open>int(s, 16)\<close> is the parameter
  \<open>int16\<close>: \<open>None\<close> where it raises \<open>ValueError\<close>.
\<close>

fun hex_values :: "(string \<Rightarrow> int option) \<Rightarrow> string \<Rightarrow> error + int list" where
  "hex_values int16 [] = Inr []"
| "hex_values int16 [c] =
     (case int16 [c] of None \<Rightarrow> Inl BadHex | Some v \<Rightarrow> Inr [v])"
| "hex_values int16 (c1 # c2 # cs) =
     (case int16 [c1, c2] of
        None \<Rightarrow> Inl BadHex
      | Some v \<Rightarrow> ebind (hex_values int16 cs) (\<lambda>vs. Inr (v # vs)))"

definition hex_fallback ::
    "(string \<Rightarrow> int option) \<Rightarrow> string \<Rightarrow> nat option \<Rightarrow> error + ((int \<times> int list) \<times> nat option)" where
  "hex_fallback int16 share_str secret_length =
     (if CHR ''-'' \<notin> set share_str then Inl InvalidShareFormat
      else let share_id_hex = takeWhile (\<lambda>c. c \<noteq> CHR ''-'') share_str;
               values_hex = tl (dropWhile (\<lambda>c. c \<noteq> CHR ''-'') share_str)
           in case int16 share_id_hex of
                None \<Rightarrow> Inl BadHex
              | Some share_id \<Rightarrow>
                  if share_id < 1 \<or> share_id > 255 then Inl InvalidShareId
                  else if length values_hex mod 2 \<noteq> 0 then Inl InvalidValuesLength
                  else ebind (hex_values int16 values_hex) (\<lambda>values.
                         case secret_length of
                           None \<Rightarrow> Inr ((share_id, values), Some (length values))
                         | Some n \<Rightarrow>
                             if length values \<noteq> n then Inl InconsistentLengths
                             else Inr ((share_id, values), Some n)))"

text \<open>The Base62 attempt of one loop iteration, with the length bookkeeping.\<close>

definition base62_attempt ::
    "string \<Rightarrow> nat option \<Rightarrow> error + ((int \<times> int list) \<times> nat option)" where
  "base62_attempt share_str secret_length =
     ebind (parse_base62_share share_str) (\<lambda>(share_id, values).
       case secret_length of
         None \<Rightarrow> Inr ((int share_id, map int values), Some (length values))
       | Some n \<Rightarrow>
           if length values \<noteq> n then
             (if length values > n then Inr ((int share_id, map int (take n values)), Some n)
              else Inl InconsistentLengths)
           else Inr ((int share_id, map int values), Some n))"

definition parse_share ::
    "(string \<Rightarrow> int option) \<Rightarrow> string \<Rightarrow> nat option \<Rightarrow> error + ((int \<times> int list) \<times> nat option)" where
  "parse_share int16 share_str secret_length =
     (case base62_attempt share_str secret_length of
        Inr r \<Rightarrow> Inr r
      | Inl _ \<Rightarrow>
          (case hex_fallback int16 share_str secret_length of
             Inl e \<Rightarrow> Inl (ParseFailed e)
           | Inr r \<Rightarrow> Inr r))"

fun parse_shares ::
    "(string \<Rightarrow> int option) \<Rightarrow> string list \<Rightarrow> (int \<times> int list) list \<Rightarrow> nat option \<Rightarrow>
       error + ((int \<times> int list) list \<times> nat option)" where
  "parse_shares int16 [] parsed_shares secret_length = Inr (parsed_shares, secret_length)"
| "parse_shares int16 (share_str # rest) parsed_shares secret_length =
     ebind (parse_share int16 share_str secret_length) (\<lambda>(entry, secret_length').
       parse_shares int16 rest (parsed_shares @ [entry]) secret_length')"

text \<open>\<open>points.append((share_id, values[byte_index]))\<close> for every parsed share.\<close>

fun collect_points :: "(int \<times> int list) list \<Rightarrow> nat \<Rightarrow> error + (int \<times> int) list" where
  "collect_points [] byte_index = Inr []"
| "collect_points ((share_id, values) # rest) byte_index =
     (if byte_index < length values
      then ebind (collect_points rest byte_index) (\<lambda>points.
             Inr ((share_id, values ! byte_index) # points))
      else Inl IndexError)"

fun reconstruct_bytes ::
    "(int \<times> int list) list \<Rightarrow> nat list \<Rightarrow> int list \<Rightarrow> error + int list" where
  "reconstruct_bytes parsed_shares [] secret_bytes = Inr secret_bytes"
| "reconstruct_bytes parsed_shares (byte_index # rest) secret_bytes =
     ebind (collect_points parsed_shares byte_index) (\<lambda>points.
     ebind (lagrange_interpolation points 0) (\<lambda>secret_byte.
       reconstruct_bytes parsed_shares rest (secret_bytes @ [secret_byte])))"

definition reconstruct_secret :: "(string \<Rightarrow> int option) \<Rightarrow> string list \<Rightarrow> error + pystr" where
  "reconstruct_secret int16 shares =
     (if shares = [] then Inl NoShares
      else ebind (parse_shares int16 shares [] None) (\<lambda>(parsed_shares, secret_length).
             if parsed_shares = [] then Inl NoValidShares
             else case secret_length of
                    None \<Rightarrow> Inl TypeError
                  | Some n \<Rightarrow>
                      ebind (reconstruct_bytes parsed_shares [0..<n] []) (\<lambda>secret_bytes.
                      ebind (bytes_of secret_bytes) (\<lambda>bs.
                        case utf8_decode bs of
                          Inl _ \<Rightarrow> Inl BadUtf8
                        | Inr secret \<Rightarrow> Inr secret))))"

section \<open>Auxiliary notions for the field proofs\<close>

text \<open>One doubling step of the loop body, and the loop started from an empty accumulator.\<close>

definition xtime :: "nat \<Rightarrow> nat" where
  "xtime a = (let a' = push_bit 1 a in if a' AND 0x100 \<noteq> 0 then a' XOR POLYNOMIAL else a')"

definition pmul :: "nat \<Rightarrow> nat \<Rightarrow> nat" where
  "pmul a b = gf_mult_basic_loop a b 0"

definition mul3 :: "nat \<Rightarrow> nat" where
  "mul3 a = (a XOR xtime a) AND 0xff"

fun chain3 :: "nat list \<Rightarrow> bool" where
  "chain3 (x # y # ys) = (mul3 x = y \<and> chain3 (y # ys))"
| "chain3 _ = True"

definition red0 :: "nat \<Rightarrow> bool" where
  "red0 a =
     (a XOR xtime a XOR xtime (xtime (xtime a)) XOR xtime (xtime (xtime (xtime a))) XOR
      xtime (xtime (xtime (xtime (xtime (xtime (xtime (xtime a))))))) = 0)"

text \<open>The powers of 3 that \<open>_build_tables\<close> computes, as a literal.\<close>

definition exp_lit :: "nat list" where
  "exp_lit =
    [1, 3, 5, 15, 17, 51, 85, 255, 26, 46, 114, 150, 161, 248, 19, 53, 95, 225, 56, 72,
     216, 115, 149, 164, 247, 2, 6, 10, 30, 34, 102, 170, 229, 52, 92, 228, 55, 89, 235,
     38, 106, 190, 217, 112, 144, 171, 230, 49, 83, 245, 4, 12, 20, 60, 68, 204, 79,
     209, 104, 184, 211, 110, 178, 205, 76, 212, 103, 169, 224, 59, 77, 215, 98, 166,
     241, 8, 24, 40, 120, 136, 131, 158, 185, 208, 107, 189, 220, 127, 129, 152, 179,
     206, 73, 219, 118, 154, 181, 196, 87, 249, 16, 48, 80, 240, 11, 29, 39, 105, 187,
     214, 97, 163, 254, 25, 43, 125, 135, 146, 173, 236, 47, 113, 147, 174, 233, 32, 96,
     160, 251, 22, 58, 78, 210, 109, 183, 194, 93, 231, 50, 86, 250, 21, 63, 65, 195,
     94, 226, 61, 71, 201, 64, 192, 91, 237, 44, 116, 156, 191, 218, 117, 159, 186, 213,
     100, 172, 239, 42, 126, 130, 157, 188, 223, 122, 142, 137, 128, 155, 182, 193, 88,
     232, 35, 101, 175, 234, 37, 111, 177, 200, 67, 197, 84, 252, 31, 33, 99, 165, 244,
     7, 9, 27, 45, 119, 153, 176, 203, 70, 202, 69, 207, 74, 222, 121, 139, 134, 145,
     168, 227, 62, 66, 198, 81, 243, 14, 18, 54, 90, 238, 41, 123, 141, 140, 143, 138,
     133, 148, 167, 242, 13, 23, 57, 75, 221, 124, 132, 151, 162, 253, 28, 36, 108, 180,
     199, 82, 246, 1]"

text \<open>A bounded universal quantifier that evaluates by recursion.\<close>

fun all_below :: "(nat \<Rightarrow> bool) \<Rightarrow> nat \<Rightarrow> bool" where
  "all_below P 0 = True"
| "all_below P (Suc n) = (P n \<and> all_below P n)"

definition xtime_ok :: "nat \<Rightarrow> bool" where
  "xtime_ok a = (xtime a < 256)"

section \<open>The doubling step and the shift-and-reduce product\<close>

lemmas nat_numeral_fold = numeral_3_eq_3 [symmetric] numeral_2_eq_2 [symmetric]

lemma xor_cancel_left: "a XOR (a XOR x) = x" for a x :: nat
  by (simp add: xor.assoc [symmetric])

lemmas xor_ac = xor.assoc xor.commute xor.left_commute xor_cancel_left

lemma all_below_numeral:
  "all_below P (numeral k) = (P (pred_numeral k) \<and> all_below P (pred_numeral k))"
  by (simp add: numeral_eq_Suc)

lemma byte_cases: "all_below P n \<Longrightarrow> a < n \<Longrightarrow> P a"
  by (induction n) (auto simp: less_Suc_eq)

lemma byte_take_bit: "a < 256 \<longleftrightarrow> take_bit 8 a = a" for a :: nat
  by (simp add: take_bit_nat_eq_self_iff)

lemma xor_byte: "a < 256 \<Longrightarrow> b < 256 \<Longrightarrow> a XOR b < 256" for a b :: nat
  by (simp add: byte_take_bit)

lemma and_ff_byte: "a < 256 \<Longrightarrow> a AND 0xff = a" for a :: nat
proof -
  assume "a < 256"
  then have "take_bit 8 a = a" by (simp add: byte_take_bit)
  then show ?thesis by (simp add: take_bit_eq_mask mask_eq_exp_minus_1)
qed

lemma xtime_alt: "xtime a = (if bit a 7 then push_bit 1 a XOR 283 else push_bit 1 a)"
proof -
  have "bit (push_bit 1 a) 8 = bit a 7"
    unfolding bit_push_bit_iff by simp
  then have "(push_bit 1 a AND 256 = 0) = (\<not> bit a 7)"
    using and_exp_eq_0_iff_not_bit [of "push_bit 1 a" 8] by simp
  then show ?thesis by (auto simp add: xtime_def POLYNOMIAL_def Let_def)
qed

lemma xtime_xor: "xtime (a XOR b) = xtime a XOR xtime b"
  by (simp add: xtime_alt bit_xor_iff xor_ac)

lemma xtime_0: "xtime 0 = 0"
  by (simp add: xtime_alt)

lemma xtime_byte_all: "all_below xtime_ok 256"
  by (simp add: all_below_numeral xtime_ok_def xtime_def POLYNOMIAL_def nat_numeral_fold)

lemma xtime_byte: "a < 256 \<Longrightarrow> xtime a < 256"
  using byte_cases [OF xtime_byte_all, of a] by (simp add: xtime_ok_def)

lemma loop_unfold:
  "gf_mult_basic_loop a b r =
     (if b = 0 then r
      else gf_mult_basic_loop (xtime a) (b div 2) (if odd b then r XOR a else r))"
  by (subst gf_mult_basic_loop.simps)
     (simp add: xtime_def Let_def drop_bit_eq_div and_one_eq mod_2_eq_odd)

lemma loop_acc: "gf_mult_basic_loop a b r = r XOR pmul a b"
proof (induction b arbitrary: a r rule: less_induct)
  case (less b)
  show ?case
  proof (cases "b = 0")
    case True
    then show ?thesis by (simp add: pmul_def loop_unfold)
  next
    case False
    then have lt: "b div 2 < b" by simp
    have "gf_mult_basic_loop a b r = (if odd b then r XOR a else r) XOR pmul (xtime a) (b div 2)"
      using False less [OF lt] by (subst loop_unfold) simp
    moreover have "pmul a b = (if odd b then a else 0) XOR pmul (xtime a) (b div 2)"
      unfolding pmul_def [of a b] using False less [OF lt] by (subst loop_unfold) simp
    ultimately show ?thesis by (simp add: xor_ac)
  qed
qed

lemma pmul_0: "pmul a 0 = 0"
  by (simp add: pmul_def loop_unfold)

lemma pmul_rec: "b \<noteq> 0 \<Longrightarrow> pmul a b = (if odd b then a else 0) XOR pmul (xtime a) (b div 2)"
  unfolding pmul_def [of a b] by (subst loop_unfold) (simp add: loop_acc)

lemma pmul_double: "pmul a (2 * b) = pmul (xtime a) b"
  by (cases "b = 0") (simp_all add: pmul_0 pmul_rec)

lemma pmul_double_Suc: "pmul a (Suc (2 * b)) = a XOR pmul (xtime a) b"
  by (simp add: pmul_rec)

lemma pmul_zero_left: "pmul 0 b = 0"
proof (induction b rule: less_induct)
  case (less b)
  show ?case
  proof (cases "b = 0")
    case False
    then have "b div 2 < b" by simp
    from less [OF this] False show ?thesis by (simp add: pmul_rec xtime_0)
  qed (simp add: pmul_0)
qed

lemma pmul_byte: "a < 256 \<Longrightarrow> pmul a b < 256"
proof (induction b arbitrary: a rule: less_induct)
  case (less b)
  show ?case
  proof (cases "b = 0")
    case False
    then have "b div 2 < b" by simp
    from less(1) [OF this xtime_byte [OF less(2)]] False less(2) show ?thesis
      by (simp add: pmul_rec xor_byte)
  qed (simp add: pmul_0)
qed

lemma gf_mult_basic_pmul: "a < 256 \<Longrightarrow> gf_mult_basic a b = pmul a b"
  by (simp add: gf_mult_basic_def pmul_def [symmetric] and_ff_byte pmul_byte)

lemma pmul_xor_left: "pmul (a XOR a') b = pmul a b XOR pmul a' b"
proof (induction b arbitrary: a a' rule: less_induct)
  case (less b)
  show ?case
  proof (cases "b = 0")
    case False
    then have "b div 2 < b" by simp
    from less [OF this] False show ?thesis
      by (simp add: pmul_rec xtime_xor xor_ac)
  qed (simp add: pmul_0)
qed

lemma pmul_xtime_left: "pmul (xtime a) b = xtime (pmul a b)"
proof (induction b arbitrary: a rule: less_induct)
  case (less b)
  show ?case
  proof (cases "b = 0")
    case False
    then have "b div 2 < b" by simp
    from less [OF this] False show ?thesis
      by (simp add: pmul_rec xtime_xor xtime_0)
  qed (simp add: pmul_0 xtime_0)
qed

lemma pmul_xor_right: "pmul a (b XOR b') = pmul a b XOR pmul a b'"
proof (induction b arbitrary: a b' rule: nat_bit_induct)
  case zero
  then show ?case by (simp add: pmul_0)
next
  case (even b)
  show ?case
  proof (cases "even b'")
    case True
    then obtain c where c: "b' = 2 * c" by (elim evenE)
    have "2 * b XOR 2 * c = 2 * (b XOR c)"
      by (simp add: xor_nat_unfold [of "2 * b" "2 * c"])
    then show ?thesis by (simp add: c pmul_double even.IH)
  next
    case False
    then obtain c where c: "b' = Suc (2 * c)" by (elim oddE) simp
    have "2 * b XOR Suc (2 * c) = Suc (2 * (b XOR c))"
      by (simp add: xor_nat_unfold [of "2 * b" "Suc (2 * c)"])
    then show ?thesis by (simp add: c pmul_double pmul_double_Suc even.IH xor_ac)
  qed
next
  case (odd b)
  show ?case
  proof (cases "even b'")
    case True
    then obtain c where c: "b' = 2 * c" by (elim evenE)
    have "Suc (2 * b) XOR 2 * c = Suc (2 * (b XOR c))"
      by (simp add: xor_nat_unfold [of "Suc (2 * b)" "2 * c"])
    then show ?thesis by (simp add: c pmul_double pmul_double_Suc odd.IH xor_ac)
  next
    case False
    then obtain c where c: "b' = Suc (2 * c)" by (elim oddE) simp
    have "Suc (2 * b) XOR Suc (2 * c) = 2 * (b XOR c)"
      by (simp add: xor_nat_unfold [of "Suc (2 * b)" "Suc (2 * c)"])
    then show ?thesis by (simp add: c pmul_double pmul_double_Suc odd.IH xor_ac)
  qed
qed

lemma pmul_1: "pmul a (Suc 0) = a"
  by (simp add: pmul_rec pmul_0)

lemma pmul_3: "pmul a 3 = a XOR xtime a"
proof -
  have "pmul a 3 = a XOR pmul (xtime a) 1"
    by (subst pmul_rec) simp_all
  then show ?thesis by (simp add: pmul_1)
qed

lemma mul3_pmul: "a < 256 \<Longrightarrow> mul3 a = pmul a 3"
  by (simp add: mul3_def pmul_3 and_ff_byte xor_byte xtime_byte)

lemma red0_all: "all_below red0 256"
  by (simp add: all_below_numeral red0_def xtime_def POLYNOMIAL_def nat_numeral_fold)

lemma pmul_283: "pmul a 283 = a XOR xtime a XOR xtime (xtime (xtime a)) XOR xtime (xtime (xtime (xtime a))) XOR
      xtime (xtime (xtime (xtime (xtime (xtime (xtime (xtime a)))))))"
proof -
  have "pmul a 283 = a XOR pmul (xtime a) 141" by (subst pmul_rec) simp_all
  also have "pmul (xtime a) 141 = xtime a XOR pmul (xtime (xtime a)) 70" by (subst pmul_rec) simp_all
  also have "pmul (xtime (xtime a)) 70 = pmul (xtime (xtime (xtime a))) 35" by (subst pmul_rec) simp_all
  also have "pmul (xtime (xtime (xtime a))) 35 = xtime (xtime (xtime a)) XOR pmul (xtime (xtime (xtime (xtime a)))) 17"
    by (subst pmul_rec) simp_all
  also have "pmul (xtime (xtime (xtime (xtime a)))) 17 = xtime (xtime (xtime (xtime a))) XOR pmul (xtime (xtime (xtime (xtime (xtime a))))) 8"
    by (subst pmul_rec) simp_all
  also have "pmul (xtime (xtime (xtime (xtime (xtime a))))) 8 = pmul (xtime (xtime (xtime (xtime (xtime (xtime (xtime (xtime a)))))))) 1"
    using pmul_double [of _ 4] pmul_double [of _ 2] pmul_double [of _ 1] by simp
  finally show ?thesis by (simp add: pmul_1 xor.assoc)
qed

lemma pmul_283_byte: "a < 256 \<Longrightarrow> pmul a 283 = 0"
  using byte_cases [OF red0_all, of a] by (simp add: pmul_283 red0_def)

lemma pmul_xtime_right: "a < 256 \<Longrightarrow> pmul a (xtime b) = xtime (pmul a b)"
proof -
  assume a: "a < 256"
  have d: "pmul a (b * 2) = xtime (pmul a b)"
  proof -
    have "b * 2 = 2 * b" by simp
    then show ?thesis by (simp only: pmul_double pmul_xtime_left)
  qed
  show ?thesis
    by (simp add: xtime_alt [of b] pmul_xor_right d pmul_283_byte [OF a])
qed

lemma pmul_semi_assoc: "x < 256 \<Longrightarrow> pmul x (pmul y 3) = pmul (pmul x y) 3"
  by (simp add: pmul_3 pmul_xor_right pmul_xtime_right)

section \<open>The tables\<close>

lemma gf_mult_basic_3: "gf_mult_basic a 3 = mul3 a"
  by (simp add: gf_mult_basic_def mul3_def pmul_def [symmetric] pmul_3)

lemma exp_lit_length: "length exp_lit = 256"
  by (simp add: exp_lit_def)

lemma exp_lit_chain: "chain3 exp_lit"
  by (simp add: exp_lit_def mul3_def xtime_def POLYNOMIAL_def nat_numeral_fold)

lemma exp_lit_distinct: "distinct (butlast exp_lit)"
  by (simp add: exp_lit_def)

lemma exp_lit_range: "list_all (\<lambda>x. 0 < x \<and> x < 256) exp_lit"
  by (simp add: exp_lit_def)

lemma exp_lit_0: "exp_lit ! 0 = 1"
  by (simp add: exp_lit_def)

lemma exp_lit_255: "exp_lit ! 255 = 1"
  by (simp add: exp_lit_def)

lemma exp_lit_byte: "i < 256 \<Longrightarrow> exp_lit ! i < 256"
  using exp_lit_range by (simp add: list_all_length exp_lit_length)

lemma exp_lit_nonzero: "i < 256 \<Longrightarrow> exp_lit ! i \<noteq> 0"
  using exp_lit_range by (simp add: list_all_length exp_lit_length)

lemma chain3_nth: "chain3 xs \<Longrightarrow> Suc i < length xs \<Longrightarrow> xs ! Suc i = mul3 (xs ! i)"
proof (induction xs arbitrary: i rule: chain3.induct)
  case (1 x y ys)
  then show ?case by (cases i) auto
qed simp_all

lemma exp_lit_Suc: "i < 255 \<Longrightarrow> exp_lit ! Suc i = mul3 (exp_lit ! i)"
  by (rule chain3_nth [OF exp_lit_chain]) (simp add: exp_lit_length)

lemma exp_lit_funpow: "i < 256 \<Longrightarrow> exp_lit ! i = (mul3 ^^ i) 1"
proof (induction i)
  case 0
  then show ?case by (simp add: exp_lit_0)
next
  case (Suc i)
  then show ?case by (simp add: exp_lit_Suc)
qed

lemma exp_fold:
  "n \<le> 255 \<Longrightarrow>
   fold (\<lambda>i (x, t). (gf_mult_basic x 3, t[i := int x])) [0..<n] (1, replicate 256 0) =
     ((mul3 ^^ n) 1, map (\<lambda>i. int ((mul3 ^^ i) 1)) [0..<n] @ replicate (256 - n) 0)"
proof (induction n)
  case 0
  then show ?case by simp
next
  case (Suc n)
  then have r: "replicate (256 - n) (0::int) = 0 # replicate (256 - Suc n) 0"
    by (cases "256 - n") simp_all
  from Suc show ?case
    by (simp add: gf_mult_basic_3 list_update_append r)
qed

lemma exp_table_eq: "exp_table = map int exp_lit"
proof -
  have f: "fold (\<lambda>i (x, t). (gf_mult_basic x 3, t[i := int x])) [0..<255] (1, replicate 256 0) =
      ((mul3 ^^ 255) 1, map (\<lambda>i. int ((mul3 ^^ i) 1)) [0..<255] @ replicate (256 - 255) 0)"
    by (rule exp_fold) simp
  have e: "exp_table = map (\<lambda>i. int ((mul3 ^^ i) 1)) [0..<255] @ [1]"
    unfolding exp_table_def build_exp_table_def f
    by (simp add: list_update_append nth_append del: upt_Suc)
  show ?thesis
  proof (rule nth_equalityI)
    show "length exp_table = length (map int exp_lit)"
      by (simp add: e exp_lit_length)
  next
    fix i assume "i < length exp_table"
    then have i: "i < 256" by (simp add: e)
    show "exp_table ! i = map int exp_lit ! i"
    proof (cases "i < 255")
      case True
      then show ?thesis by (simp add: e nth_append exp_lit_length exp_lit_funpow)
    next
      case False
      with i have "i = 255" by simp
      then show ?thesis by (simp add: e nth_append exp_lit_length exp_lit_255)
    qed
  qed
qed

lemma exp_lit_inj: "i < 255 \<Longrightarrow> j < 255 \<Longrightarrow> exp_lit ! i = exp_lit ! j \<Longrightarrow> i = j"
proof -
  assume i: "i < 255" and j: "j < 255" and eq: "exp_lit ! i = exp_lit ! j"
  have "butlast exp_lit ! i = butlast exp_lit ! j"
    using i j eq by (simp add: nth_butlast exp_lit_length)
  then show "i = j"
    using exp_lit_distinct i j by (simp add: nth_eq_iff_index_eq exp_lit_length)
qed

lemma exp_lit_surj:
  assumes "0 < a" "a < 256"
  shows "\<exists>i<255. exp_lit ! i = a"
proof -
  have sub: "set (butlast exp_lit) \<subseteq> {1..<256}"
    using exp_lit_range in_set_butlastD [of _ exp_lit] by (fastforce simp: list_all_iff)
  have "card (set (butlast exp_lit)) = 255"
    using exp_lit_distinct by (simp add: distinct_card exp_lit_length)
  then have "set (butlast exp_lit) = {1..<256}"
    using sub by (intro card_subset_eq) simp_all
  with assms have "a \<in> set (butlast exp_lit)" by simp
  then obtain i where "i < length (butlast exp_lit)" "butlast exp_lit ! i = a"
    by (auto simp: in_set_conv_nth)
  then show ?thesis by (auto simp: nth_butlast exp_lit_length)
qed

lemma log_fold:
  "n \<le> 255 \<Longrightarrow>
   length (fold (\<lambda>i t. t[nat (exp_table ! i) := int i]) [0..<n] (replicate 256 0)) = 256 \<and>
   (\<forall>i<n. fold (\<lambda>i t. t[nat (exp_table ! i) := int i]) [0..<n] (replicate 256 0) ! (exp_lit ! i) = int i)"
proof (induction n)
  case 0
  then show ?case by simp
next
  case (Suc n)
  then have n: "n < 255" by simp
  have en: "nat (exp_table ! n) = exp_lit ! n"
    using n by (simp add: exp_table_eq exp_lit_length)
  from Suc have IH: "length (fold (\<lambda>i t. t[nat (exp_table ! i) := int i]) [0..<n] (replicate 256 0)) = 256"
    "\<And>i. i < n \<Longrightarrow> fold (\<lambda>i t. t[nat (exp_table ! i) := int i]) [0..<n] (replicate 256 0) ! (exp_lit ! i) = int i"
    by simp_all
  show ?case
  proof (intro conjI allI impI)
    show "length (fold (\<lambda>i t. t[nat (exp_table ! i) := int i]) [0..<Suc n] (replicate 256 0)) = 256"
      by (simp add: IH(1))
  next
    fix i assume "i < Suc n"
    then consider "i < n" | "i = n" by linarith
    then show "fold (\<lambda>i t. t[nat (exp_table ! i) := int i]) [0..<Suc n] (replicate 256 0) ! (exp_lit ! i) = int i"
    proof cases
      case 1
      then have "exp_lit ! i \<noteq> exp_lit ! n"
        using exp_lit_inj [of i n] n by auto
      then show ?thesis using 1 by (simp add: en IH(2))
    next
      case 2
      then show ?thesis using n by (simp add: en IH(1) exp_lit_byte)
    qed
  qed
qed

lemma log_table_length: "length log_table = 256"
proof -
  have "log_table = fold (\<lambda>i t. t[nat (exp_table ! i) := int i]) [0..<255] (replicate 256 0)"
    by (simp only: log_table_def build_log_table_def)
  then show ?thesis using log_fold [of 255] by simp
qed

lemma log_table_exp: "i < 255 \<Longrightarrow> log_table ! (exp_lit ! i) = int i"
proof -
  assume i: "i < 255"
  have "log_table = fold (\<lambda>i t. t[nat (exp_table ! i) := int i]) [0..<255] (replicate 256 0)"
    by (simp only: log_table_def build_log_table_def)
  then show ?thesis using log_fold [of 255] i by simp
qed

section \<open>The table product is the shift-and-reduce product\<close>

lemma exp_lit_mul3: "i < 255 \<Longrightarrow> pmul (exp_lit ! i) 3 = exp_lit ! (Suc i mod 255)"
proof -
  assume i: "i < 255"
  have "pmul (exp_lit ! i) 3 = exp_lit ! Suc i"
    using i by (simp add: exp_lit_Suc mul3_pmul exp_lit_byte)
  moreover have "exp_lit ! Suc i = exp_lit ! (Suc i mod 255)"
  proof (cases "Suc i = 255")
    case True
    then show ?thesis by (simp add: exp_lit_255 exp_lit_0)
  next
    case False
    with i show ?thesis by simp
  qed
  ultimately show ?thesis by simp
qed

lemma exp_lit_mult:
  "i < 255 \<Longrightarrow> j < 255 \<Longrightarrow> pmul (exp_lit ! i) (exp_lit ! j) = exp_lit ! ((i + j) mod 255)"
proof (induction j)
  case 0
  then show ?case by (simp add: exp_lit_0 pmul_1)
next
  case (Suc j)
  then have j: "j < 255" by simp
  have "pmul (exp_lit ! i) (exp_lit ! Suc j) = pmul (exp_lit ! i) (pmul (exp_lit ! j) 3)"
    using j by (simp add: exp_lit_Suc mul3_pmul exp_lit_byte)
  also have "\<dots> = pmul (pmul (exp_lit ! i) (exp_lit ! j)) 3"
    using Suc.prems by (simp add: pmul_semi_assoc exp_lit_byte)
  also have "\<dots> = pmul (exp_lit ! ((i + j) mod 255)) 3"
    using Suc j by simp
  also have "\<dots> = exp_lit ! (Suc ((i + j) mod 255) mod 255)"
    by (rule exp_lit_mul3) simp
  also have "Suc ((i + j) mod 255) mod 255 = (i + Suc j) mod 255"
    by (simp add: mod_Suc_eq)
  finally show ?case .
qed

lemma py_index_nat: "n < length xs \<Longrightarrow> py_index xs (int n) = Inr (xs ! n)"
  by (simp add: py_index_def Let_def)

lemma exp_table_length: "length exp_table = 256"
  by (simp add: exp_table_eq exp_lit_length)

lemma log_lookup: "i < 255 \<Longrightarrow> py_index log_table (int (exp_lit ! i)) = Inr (int i)"
  by (simp add: py_index_nat log_table_length exp_lit_byte log_table_exp)

lemma exp_lookup: "0 \<le> k \<Longrightarrow> k < 255 \<Longrightarrow> py_index exp_table k = Inr (int (exp_lit ! nat k))"
  using py_index_nat [of "nat k" exp_table]
  by (simp add: exp_table_length exp_table_eq exp_lit_length)

lemma gf_mult_exp:
  assumes "i < 255" "j < 255"
  shows "gf_mult (int (exp_lit ! i)) (int (exp_lit ! j)) = Inr (int (exp_lit ! ((i + j) mod 255)))"
proof -
  have k: "nat ((int i + int j) mod 255) = (i + j) mod 255"
    by (simp add: nat_mod_distrib nat_add_distrib)
  show ?thesis
    using assms
    by (simp add: gf_mult_def exp_lit_nonzero log_lookup ebind_def exp_lookup k)
qed

lemma gf_div_exp:
  assumes "i < 255" "j < 255"
  shows "gf_div (int (exp_lit ! i)) (int (exp_lit ! j)) =
           Inr (int (exp_lit ! nat ((int i - int j) mod 255)))"
  using assms
  by (simp add: gf_div_def exp_lit_nonzero log_lookup ebind_def exp_lookup)

lemma gf_mult_basic_byte: "gf_mult_basic a b < 256"
proof -
  have "gf_mult_basic a b = take_bit 8 (gf_mult_basic_loop a b 0)"
    by (simp add: gf_mult_basic_def take_bit_eq_mask mask_eq_exp_minus_1)
  then show ?thesis
    using take_bit_nat_less_exp [of 8 "gf_mult_basic_loop a b 0"] by simp
qed

lemma gf_mult_table_basic:
  assumes "a < 256" "b < 256"
  shows "gf_mult (int a) (int b) = Inr (int (gf_mult_basic a b))"
proof (cases "a = 0 \<or> b = 0")
  case True
  then show ?thesis
    using assms by (auto simp: gf_mult_def gf_mult_basic_pmul pmul_0 pmul_zero_left)
next
  case False
  with assms obtain i j where "i < 255" "exp_lit ! i = a" "j < 255" "exp_lit ! j = b"
    using exp_lit_surj [of a] exp_lit_surj [of b] by auto
  then show ?thesis
    using gf_mult_exp [of i j] exp_lit_mult [of i j] assms
    by (simp add: gf_mult_basic_pmul)
qed

lemma byte_exp_cases:
  assumes "0 \<le> a" "a < 256"
  obtains "a = 0" | i where "i < 255" "a = int (exp_lit ! i)"
proof (cases "a = 0")
  case False
  with assms have "0 < nat a" "nat a < 256" by simp_all
  then obtain i where "i < 255" "exp_lit ! i = nat a"
    using exp_lit_surj by blast
  with assms that(2) [of i] show ?thesis by simp
qed

lemma gf_mult_one: "0 \<le> a \<Longrightarrow> a < 256 \<Longrightarrow> gf_mult a 1 = Inr a"
proof (erule (1) byte_exp_cases)
  show "a = 0 \<Longrightarrow> gf_mult a 1 = Inr a" by (simp add: gf_mult_def)
next
  fix i assume "i < 255" "a = int (exp_lit ! i)"
  then show "gf_mult a 1 = Inr a"
    using gf_mult_exp [of i 0] by (simp add: exp_lit_0)
qed

lemma gf_mult_commute:
  "0 \<le> a \<Longrightarrow> a < 256 \<Longrightarrow> 0 \<le> b \<Longrightarrow> b < 256 \<Longrightarrow> gf_mult a b = gf_mult b a"
proof (erule (1) byte_exp_cases)
  show "a = 0 \<Longrightarrow> gf_mult a b = gf_mult b a" by (simp add: gf_mult_def)
next
  fix i assume i: "i < 255" "a = int (exp_lit ! i)" and b: "0 \<le> b" "b < 256"
  from b show "gf_mult a b = gf_mult b a"
  proof (rule byte_exp_cases)
    show "b = 0 \<Longrightarrow> gf_mult a b = gf_mult b a" by (simp add: gf_mult_def)
  next
    fix j assume "j < 255" "b = int (exp_lit ! j)"
    with i show "gf_mult a b = gf_mult b a"
      by (simp add: gf_mult_exp add.commute)
  qed
qed

lemma gf_div_mult_cancel:
  assumes "0 \<le> a" "a < 256" "0 \<le> b" "b < 256" "b \<noteq> 0"
  shows "ebind (gf_mult a b) (\<lambda>p. gf_div p b) = Inr a"
proof -
  from assms(3,4,5) obtain j where j: "j < 255" "b = int (exp_lit ! j)"
    by (auto elim: byte_exp_cases)
  from assms(1,2) show ?thesis
  proof (rule byte_exp_cases)
    assume "a = 0"
    then show ?thesis by (simp add: gf_mult_def gf_div_def ebind_def)
  next
    fix i assume i: "i < 255" "a = int (exp_lit ! i)"
    have "(int ((i + j) mod 255) - int j) mod 255 = int i"
      using i(1) by (simp add: zmod_int mod_diff_left_eq)
    then show ?thesis
      using i j gf_div_exp [of "(i + j) mod 255" j]
      by (simp add: gf_mult_exp ebind_def)
  qed
qed

section \<open>Claims about the field operations\<close>

text \<open>
  C6: for all field elements \<open>a\<close>, \<open>b\<close> in \<open>0..255\<close>, the table-based operations
  satisfy \<open>mul(a, 1) = a\<close>, \<open>mul(a, 0) = 0\<close>, \<open>mul(a, b) = mul(b, a)\<close>, and
  \<open>div(mul(a, b), b) = a\<close> whenever \<open>b \<noteq> 0\<close>.
\<close>

theorem gf_laws:
  assumes "0 \<le> a" "a < 256" "0 \<le> b" "b < 256"
  shows "gf_mult a 1 = Inr a \<and> gf_mult a 0 = Inr 0 \<and> gf_mult a b = gf_mult b a \<and>
         (b \<noteq> 0 \<longrightarrow> ebind (gf_mult a b) (\<lambda>p. gf_div p b) = Inr a)"
proof (intro conjI impI)
  show "gf_mult a 1 = Inr a" using assms(1,2) by (rule gf_mult_one)
  show "gf_mult a 0 = Inr 0" by (simp add: gf_mult_def)
  show "gf_mult a b = gf_mult b a" using assms by (rule gf_mult_commute)
  show "ebind (gf_mult a b) (\<lambda>p. gf_div p b) = Inr a" if "b \<noteq> 0"
    using assms that by (simp add: gf_div_mult_cancel)
qed

theorem gf_laws_witness:
  "(0::int) \<le> 87 \<and> (87::int) < 256 \<and> (0::int) \<le> 131 \<and> (131::int) < 256 \<and> (131::int) \<noteq> 0 \<and>
   gf_mult 87 1 = Inr 87 \<and> gf_mult 87 0 = Inr 0 \<and> gf_mult 87 131 = gf_mult 131 87 \<and>
   ebind (gf_mult 87 131) (\<lambda>p. gf_div p 131) = Inr 87"
proof -
  have h: "(0::int) \<le> 87" "(87::int) < 256" "(0::int) \<le> 131" "(131::int) < 256" "(131::int) \<noteq> 0"
    by simp_all
  from h gf_laws [OF h(1-4)] show ?thesis by blast
qed

text \<open>
  C10: for all \<open>a\<close>, \<open>b\<close> in \<open>0..255\<close>, the table-based multiplication \<open>_gf_mult\<close>
  returns the value of the bit-level shift-and-reduce multiplication \<open>_gf_mult_basic\<close>.
\<close>

theorem gf_mult_refines_basic:
  "a < 256 \<Longrightarrow> b < 256 \<Longrightarrow> gf_mult (int a) (int b) = Inr (int (gf_mult_basic a b))"
  by (rule gf_mult_table_basic)

theorem gf_mult_refines_basic_witness:
  "(87::nat) < 256 \<and> (131::nat) < 256 \<and>
   gf_mult (int 87) (int 131) = Inr (int (gf_mult_basic 87 131))"
  using gf_mult_refines_basic [of 87 131] by simp

section \<open>Codec lemmas\<close>

lemma alphabet_length: "length BASE62_ALPHABET = 62"
  by (simp add: BASE62_ALPHABET_def)

lemma alphabet_distinct: "distinct BASE62_ALPHABET"
  by (simp add: BASE62_ALPHABET_def)

lemma str_index_nth: "distinct s \<Longrightarrow> k < length s \<Longrightarrow> str_index s (s ! k) = k"
proof (induction s arbitrary: k)
  case Nil
  then show ?case by simp
next
  case (Cons d ds)
  then show ?case by (cases k) auto
qed

lemma digit_index: "k < 62 \<Longrightarrow> str_index BASE62_ALPHABET (BASE62_ALPHABET ! k) = k"
  by (simp add: str_index_nth alphabet_distinct alphabet_length)

lemma digit_in_alphabet: "k < 62 \<Longrightarrow> BASE62_ALPHABET ! k \<in> set BASE62_ALPHABET"
  by (simp add: alphabet_length)

lemma encode_loop_acc: "encode_loop num acc = encode_loop num [] @ acc"
proof (induction num arbitrary: acc rule: less_induct)
  case (less num)
  show ?case
  proof (cases "num = 0")
    case True
    then show ?thesis by (simp add: encode_loop.simps)
  next
    case False
    then have lt: "num div 62 < num" by simp
    show ?thesis
      using False less [OF lt, of "BASE62_ALPHABET ! (num mod 62) # acc"]
        less [OF lt, of "[BASE62_ALPHABET ! (num mod 62)]"]
      by (simp add: encode_loop.simps [of num])
  qed
qed

lemma encode_loop_0: "encode_loop 0 acc = acc"
  by (simp add: encode_loop.simps)

lemma encode_loop_step:
  "num > 0 \<Longrightarrow> encode_loop num [] = encode_loop (num div 62) [] @ [BASE62_ALPHABET ! (num mod 62)]"
  using encode_loop_acc [of "num div 62" "[BASE62_ALPHABET ! (num mod 62)]"]
  by (simp add: encode_loop.simps [of num])

lemma decode_loop_append:
  "decode_loop (xs @ ys) n = ebind (decode_loop xs n) (decode_loop ys)"
  by (induction xs arbitrary: n) (simp_all add: ebind_def)

lemma decode_encode_loop: "decode_loop (encode_loop num []) 0 = Inr num"
proof (induction num rule: less_induct)
  case (less num)
  show ?case
  proof (cases "num = 0")
    case True
    then show ?thesis by (simp add: encode_loop_0)
  next
    case False
    then have lt: "num div 62 < num" by simp
    show ?thesis
      using False less [OF lt]
      by (simp add: encode_loop_step decode_loop_append ebind_def digit_index digit_in_alphabet)
  qed
qed

lemma encode_loop_alphabet: "set (encode_loop num []) \<subseteq> set BASE62_ALPHABET"
proof (induction num rule: less_induct)
  case (less num)
  show ?case
  proof (cases "num = 0")
    case True
    then show ?thesis by (simp add: encode_loop_0)
  next
    case False
    then have lt: "num div 62 < num" by simp
    show ?thesis
      using False less [OF lt] by (simp add: encode_loop_step digit_in_alphabet)
  qed
qed

lemma encode_loop_length: "62 ^ k \<le> num \<Longrightarrow> k < length (encode_loop num [])"
proof (induction k arbitrary: num)
  case 0
  then show ?case by (simp add: encode_loop_step)
next
  case (Suc k)
  then have pos: "num > 0" by (cases "num = 0") simp_all
  from Suc.prems have "62 ^ k \<le> num div 62"
    by (simp add: less_eq_div_iff_mult_less_eq mult.commute)
  from Suc.IH [OF this] pos show ?case by (simp add: encode_loop_step)
qed

lemma encode_loop_nonempty: "num > 0 \<Longrightarrow> encode_loop num [] \<noteq> []"
  by (simp add: encode_loop_step)

subsection \<open>Bytes and numbers\<close>

lemma from_bytes_Nil: "from_bytes [] = 0"
  by (simp add: from_bytes_def)

lemma from_bytes_snoc: "from_bytes (bs @ [b]) = from_bytes bs * 256 + b"
  by (simp add: from_bytes_def)

lemma from_bytes_zero_Cons: "from_bytes (0 # bs) = from_bytes bs"
  by (simp add: from_bytes_def)

lemma from_bytes_dropWhile: "from_bytes (dropWhile (\<lambda>b. b = 0) bs) = from_bytes bs"
  by (induction bs) (simp_all add: from_bytes_zero_Cons)

lemma from_bytes_less: "\<forall>b\<in>set bs. b < 256 \<Longrightarrow> from_bytes bs < 256 ^ length bs"
proof (induction bs rule: rev_induct)
  case Nil
  then show ?case by (simp add: from_bytes_Nil)
next
  case (snoc b bs)
  then have "from_bytes bs < 256 ^ length bs" "b < 256" by simp_all
  then have "from_bytes bs * 256 + b < (from_bytes bs + 1) * 256" by simp
  also have "\<dots> \<le> 256 ^ length bs * 256"
    using \<open>from_bytes bs < 256 ^ length bs\<close> by (intro mult_le_mono1) simp
  finally show ?case by (simp add: from_bytes_snoc)
qed

lemma from_bytes_Cons: "from_bytes (b # bs) = b * 256 ^ length bs + from_bytes bs"
proof (induction bs rule: rev_induct)
  case Nil
  then show ?case by (simp add: from_bytes_def)
next
  case (snoc c bs)
  have "from_bytes (b # bs @ [c]) = from_bytes ((b # bs) @ [c])" by simp
  also have "\<dots> = from_bytes (b # bs) * 256 + c" by (rule from_bytes_snoc)
  finally show ?case by (simp add: snoc from_bytes_snoc algebra_simps)
qed

lemma to_bytes_from_bytes:
  "\<forall>b\<in>set bs. b < 256 \<Longrightarrow> to_bytes_digits (from_bytes bs) (length bs) = bs"
proof (induction bs rule: rev_induct)
  case Nil
  then show ?case by simp
next
  case (snoc b bs)
  then show ?case by (simp add: from_bytes_snoc)
qed

lemma bit_length_le: "n < 2 ^ m \<Longrightarrow> bit_length n \<le> m"
proof (induction m arbitrary: n)
  case 0
  then show ?case by (simp add: bit_length.simps)
next
  case (Suc m)
  then have "n div 2 < 2 ^ m" by (simp add: less_mult_imp_div_less mult.commute)
  from Suc.IH [OF this] show ?case by (simp add: bit_length.simps [of n])
qed

lemma bit_length_gt: "2 ^ m \<le> n \<Longrightarrow> m < bit_length n"
proof (induction m arbitrary: n)
  case 0
  then show ?case by (simp add: bit_length.simps [of n])
next
  case (Suc m)
  then have pos: "n \<noteq> 0" by (cases "n = 0") simp_all
  from Suc.prems have "2 ^ m \<le> n div 2"
    by (simp add: less_eq_div_iff_mult_less_eq mult.commute)
  from Suc.IH [OF this] pos show ?case by (simp add: bit_length.simps [of n])
qed

lemma byte_length_eq:
  assumes "256 ^ k \<le> n" "n < 256 ^ Suc k"
  shows "(bit_length n + 7) div 8 = Suc k"
proof -
  have p: "(256::nat) ^ j = 2 ^ (8 * j)" for j
  proof -
    have "(256::nat) ^ j = (2 ^ 8) ^ j" by simp
    also have "\<dots> = 2 ^ (8 * j)" by (rule power_mult [symmetric])
    finally show ?thesis .
  qed
  from assms have "2 ^ (8 * k) \<le> n" "n < 2 ^ (8 * Suc k)"
    unfolding p [symmetric] by simp_all
  then have "8 * k < bit_length n" "bit_length n \<le> 8 * Suc k"
    by (simp_all add: bit_length_gt bit_length_le)
  then show ?thesis by auto
qed

lemma dropWhile_zero_cases:
  obtains "\<forall>b\<in>set bs. b = (0::nat)" | c cs where "dropWhile (\<lambda>b. b = 0) bs = c # cs" "c \<noteq> 0"
proof (cases "dropWhile (\<lambda>b. b = 0) bs")
  case Nil
  then have "\<forall>b\<in>set bs. b = 0" by (simp add: dropWhile_eq_Nil_conv)
  then show ?thesis by (rule that(1))
next
  case (Cons c cs)
  then have "c \<noteq> 0" using hd_dropWhile [of "\<lambda>b. b = 0" bs] by auto
  with Cons show ?thesis by (rule that(2))
qed

lemma from_bytes_all_zero: "\<forall>b\<in>set bs. b = 0 \<Longrightarrow> from_bytes bs = 0"
  by (induction bs) (simp_all add: from_bytes_Nil from_bytes_zero_Cons)

lemma decode_nonzero_head:
  assumes "c \<noteq> 0" "\<forall>b\<in>set (c # cs). b < 256"
  shows "decode_base62 (encode_loop (from_bytes (c # cs)) []) = Inr (c # cs)"
proof -
  let ?n = "from_bytes (c # cs)"
  have lo: "256 ^ length cs \<le> ?n"
    using assms(1) by (simp add: from_bytes_Cons trans_le_add1)
  have hi: "?n < 256 ^ Suc (length cs)"
    using from_bytes_less [OF assms(2)] by simp
  from lo have pos: "?n > 0"
    by (metis gr0I not_less_eq_eq power_eq_0_iff zero_neq_numeral le_zero_eq)
  have bl: "(bit_length ?n + 7) div 8 = Suc (length cs)"
    using lo hi by (rule byte_length_eq)
  have "to_bytes_digits ?n (length (c # cs)) = c # cs"
    using assms(2) by (rule to_bytes_from_bytes)
  then show ?thesis
    using pos hi
    by (simp add: decode_base62_def encode_loop_nonempty decode_encode_loop ebind_def bl
        to_bytes_def del: to_bytes_digits.simps)
qed

lemma decode_encode_general:
  assumes "\<forall>b\<in>set v. b < 256"
  shows "decode_base62 (encode_base62 v) =
           Inr (if v = [] then [] else if \<forall>b\<in>set v. b = 0 then [0]
                else dropWhile (\<lambda>b. b = 0) v)"
proof (cases "v = []")
  case True
  then show ?thesis by (simp add: encode_base62_def decode_base62_def)
next
  case False
  show ?thesis
  proof (rule dropWhile_zero_cases [of v])
    assume z: "\<forall>b\<in>set v. b = 0"
    then have "from_bytes v = 0" by (rule from_bytes_all_zero)
    then show ?thesis
      using False z
      by (simp add: encode_base62_def decode_base62_def ebind_def BASE62_ALPHABET_def)
  next
    fix c cs assume d: "dropWhile (\<lambda>b. b = 0) v = c # cs" and c: "c \<noteq> 0"
    have "c \<in> set v" using d set_dropWhileD [of c "\<lambda>b. b = 0" v] by simp
    with c have nz: "\<not> (\<forall>b\<in>set v. b = 0)" by auto
    have "set (c # cs) \<subseteq> set v"
      using d set_dropWhileD [of _ "\<lambda>b. b = 0" v] by auto
    with assms have bt: "\<forall>b\<in>set (c # cs). b < 256" by blast
    have n: "from_bytes v = from_bytes (c # cs)"
      using from_bytes_dropWhile [of v] d by simp
    have "from_bytes (c # cs) \<noteq> 0"
      using c by (simp add: from_bytes_Cons)
    then have "decode_base62 (encode_base62 v) = Inr (c # cs)"
      using False decode_nonzero_head [OF c bt]
      by (simp add: encode_base62_def n Let_def)
    then show ?thesis
      using False nz d by (simp only: if_False)
  qed
qed

section \<open>Framing lemmas\<close>

lemma to_bytes_digits_length: "length (to_bytes_digits n k) = k"
  by (induction n k rule: to_bytes_digits.induct) simp_all

lemma to_bytes_digits_byte: "\<forall>b\<in>set (to_bytes_digits n k). b < 256"
  by (induction n k rule: to_bytes_digits.induct) simp_all

lemma from_to_bytes: "n < 256 ^ k \<Longrightarrow> from_bytes (to_bytes_digits n k) = n"
proof (induction n k rule: to_bytes_digits.induct)
  case (1 n)
  then show ?case by (simp add: from_bytes_Nil)
next
  case (2 n k)
  then have "n div 256 < 256 ^ k" by (simp add: less_mult_imp_div_less mult.commute)
  with 2 show ?case by (simp add: from_bytes_snoc)
qed

lemma to_bytes_digits_head:
  "256 ^ k \<le> n \<Longrightarrow> n < 256 ^ Suc k \<Longrightarrow> to_bytes_digits n (Suc k) ! 0 \<noteq> 0"
proof (induction k arbitrary: n)
  case 0
  then show ?case by simp
next
  case (Suc k)
  have lo: "256 ^ k \<le> n div 256"
    using Suc.prems(1) by (simp add: less_eq_div_iff_mult_less_eq mult.commute)
  have hi: "n div 256 < 256 ^ Suc k"
    using Suc.prems(2) by (simp add: less_mult_imp_div_less mult.commute)
  have "to_bytes_digits n (Suc (Suc k)) = to_bytes_digits (n div 256) (Suc k) @ [n mod 256]"
    by (rule to_bytes_digits.simps)
  then have "to_bytes_digits n (Suc (Suc k)) ! 0 = to_bytes_digits (n div 256) (Suc k) ! 0"
    by (simp only: nth_append to_bytes_digits_length) simp
  with Suc.IH [OF lo hi] show ?case by simp
qed

lemma bit_length_lower: "n \<noteq> 0 \<Longrightarrow> 2 ^ (bit_length n - 1) \<le> n"
proof (induction n rule: less_induct)
  case (less n)
  show ?case
  proof (cases "n div 2 = 0")
    case True
    with less.prems show ?thesis
      by (simp add: bit_length.simps [of n] bit_length.simps [of 0])
  next
    case False
    then have lt: "n div 2 < n" using less.prems by simp
    from less.IH [OF lt False] have "2 * 2 ^ (bit_length (n div 2) - 1) \<le> n"
      by simp
    moreover have "bit_length (n div 2) \<noteq> 0"
      using False by (simp add: bit_length.simps [of "n div 2"])
    ultimately show ?thesis
      using less.prems
      by (simp add: bit_length.simps [of n]) (metis power_Suc Suc_pred)
  qed
qed

lemma bit_length_upper: "n < 2 ^ bit_length n"
proof (induction n rule: less_induct)
  case (less n)
  show ?case
  proof (cases "n = 0")
    case True
    then show ?thesis by simp
  next
    case False
    then have "n div 2 < 2 ^ bit_length (n div 2)" using less.IH [of "n div 2"] by simp
    then have "n < 2 * 2 ^ bit_length (n div 2)" by simp
    then show ?thesis using False by (simp add: bit_length.simps [of n])
  qed
qed

lemma decoded_bytes_shape:
  assumes "decode_base62 s = Inr d"
  shows "(\<forall>b\<in>set d. b < 256) \<and> (2 \<le> length d \<longrightarrow> d ! 0 \<noteq> 0)"
proof (cases "s = []")
  case True
  with assms show ?thesis by (simp add: decode_base62_def)
next
  case False
  with assms obtain n where n: "decode_loop s 0 = Inr n"
    by (auto simp: decode_base62_def ebind_def split: sum.splits)
  show ?thesis
  proof (cases "n = 0")
    case True
    with assms False n show ?thesis by (auto simp: decode_base62_def ebind_def)
  next
    case nz: False
    define k where "k = (bit_length n + 7) div 8"
    from assms False n nz have d: "d = to_bytes_digits n k" and hi: "n < 256 ^ k"
      by (auto simp: decode_base62_def ebind_def to_bytes_def k_def Let_def split: if_splits)
    have p: "(256::nat) ^ j = 2 ^ (8 * j)" for j
    proof -
      have "(256::nat) ^ j = (2 ^ 8) ^ j" by simp
      also have "\<dots> = 2 ^ (8 * j)" by (rule power_mult [symmetric])
      finally show ?thesis .
    qed
    have blpos: "bit_length n \<noteq> 0" using nz by (simp add: bit_length.simps [of n])
    then have kpos: "k \<noteq> 0" by (simp add: k_def)
    then obtain k' where k': "k = Suc k'" by (cases k) simp_all
    have "8 * k' \<le> bit_length n - 1" using k' blpos unfolding k_def by arith
    then have "(2::nat) ^ (8 * k') \<le> 2 ^ (bit_length n - 1)" by (intro power_increasing) simp_all
    also note bit_length_lower [OF nz]
    finally have lo: "256 ^ k' \<le> n" by (simp only: p)
    have "d ! 0 \<noteq> 0" using to_bytes_digits_head [OF lo] hi by (simp add: d k')
    then show ?thesis by (simp add: d to_bytes_digits_byte)
  qed
qed

text \<open>The current-format branch of the parser, on the decoded bytes.\<close>

lemma parse_current_format:
  assumes "decode_base62 s = Inr d" "5 \<le> length d"
  shows "parse_base62_share s =
           (if length d - 5 = from_bytes (take 2 (drop 3 d))
            then Inr (d ! 0, take (from_bytes (take 2 (drop 1 d))) (drop 5 d))
            else Inl (ParseFailed LengthMismatch))"
proof -
  from assms(2) have "d ! 0 \<in> set d" by (intro nth_mem) linarith
  with decoded_bytes_shape [OF assms(1)] assms(2) have "d ! 0 \<noteq> 0" "d ! 0 < 256"
    by auto
  then show ?thesis
    using assms
    by (simp add: parse_base62_share_def parse_base62_share_body_def ebind_def Let_def)
qed

lemma pow62_le_pow256: "(62::nat) ^ 249 \<le> 256 ^ 186"
  by simp

lemma long_frame_encoding:
  assumes "c \<noteq> 0" "186 \<le> length cs"
  shows "250 \<le> length (encode_base62 (c # cs))"
proof -
  have "256 ^ length cs \<le> from_bytes (c # cs)"
    using assms(1) by (simp add: from_bytes_Cons trans_le_add1)
  have "(62::nat) ^ 249 \<le> 256 ^ 186" by (rule pow62_le_pow256)
  also have "(256::nat) ^ 186 \<le> 256 ^ length cs"
    using assms(2) by (intro power_increasing) simp_all
  also note \<open>256 ^ length cs \<le> from_bytes (c # cs)\<close>
  finally have big: "62 ^ 249 \<le> from_bytes (c # cs)" .
  then have "from_bytes (c # cs) \<noteq> 0" by (cases "from_bytes (c # cs) = 0") simp_all
  with encode_loop_length [OF big] show ?thesis
    by (simp add: encode_base62_def Let_def)
qed

lemma format_long_frame:
  assumes "1 \<le> share_id" "share_id \<le> 255" "L < 65536" "length vals < 65536"
    "182 \<le> length vals"
  shows "format_share_with_original_length rs share_id vals L pos =
           Inr (encode_base62 (nat share_id # to_bytes_digits L 2 @
                  to_bytes_digits (length vals) 2 @ vals), pos)"
proof -
  have nz: "nat share_id \<noteq> 0" using assms(1) by simp
  have len: "186 \<le> length (to_bytes_digits L 2 @ to_bytes_digits (length vals) 2 @ vals)"
    using assms(5) by (simp add: to_bytes_digits_length del: to_bytes_digits.simps)
  have "250 \<le> length (encode_base62 (nat share_id # to_bytes_digits L 2 @
                  to_bytes_digits (length vals) 2 @ vals))"
    using nz len by (rule long_frame_encoding)
  then show ?thesis
    using assms
    by (simp add: format_share_with_original_length_def to_bytes_def ebind_def Let_def
        del: to_bytes_digits.simps)
qed

lemma parse_frame:
  assumes "1 \<le> share_id" "share_id \<le> 255" "L < 65536" "length vals < 65536"
    "\<forall>b\<in>set vals. b < 256"
  shows "parse_base62_share (encode_base62 (nat share_id # to_bytes_digits L 2 @
            to_bytes_digits (length vals) 2 @ vals)) = Inr (nat share_id, take L vals)"
proof -
  let ?d = "nat share_id # to_bytes_digits L 2 @ to_bytes_digits (length vals) 2 @ vals"
  have bytes: "\<forall>b\<in>set ?d. b < 256"
    using assms to_bytes_digits_byte by auto
  have nz: "nat share_id \<noteq> 0" using assms(1) by simp
  have "decode_base62 (encode_base62 ?d) = Inr ?d"
    using decode_encode_general [OF bytes] nz by simp
  moreover have "5 \<le> length ?d" by (simp add: to_bytes_digits_length)
  ultimately have "parse_base62_share (encode_base62 ?d) =
      (if length ?d - 5 = from_bytes (take 2 (drop 3 ?d))
       then Inr (?d ! 0, take (from_bytes (take 2 (drop 1 ?d))) (drop 5 ?d))
       else Inl (ParseFailed LengthMismatch))"
    by (rule parse_current_format)
  moreover have "take 2 (drop 3 ?d) = to_bytes_digits (length vals) 2"
    by (simp add: to_bytes_digits_length del: to_bytes_digits.simps)
  moreover have "take 2 (drop 1 ?d) = to_bytes_digits L 2"
    by (simp add: to_bytes_digits_length del: to_bytes_digits.simps)
  moreover have "drop 5 ?d = vals"
    by (simp add: to_bytes_digits_length del: to_bytes_digits.simps)
  moreover have "length ?d - 5 = length vals"
    by (simp add: to_bytes_digits_length del: to_bytes_digits.simps)
  ultimately show ?thesis
    using assms(3,4) from_to_bytes [of L 2] from_to_bytes [of "length vals" 2]
    by (simp del: to_bytes_digits.simps)
qed

lemma format_then_parse:
  assumes "1 \<le> share_id" "share_id \<le> 255" "L < 65536" "length vals < 65536"
    "\<forall>b\<in>set vals. b < 256" "182 \<le> length vals"
  shows "ebind (format_share_with_original_length rs share_id vals L pos)
           (\<lambda>r. parse_base62_share (fst r)) = Inr (nat share_id, take L vals)"
  using assms by (simp add: format_long_frame parse_frame ebind_def)

section \<open>Claims about the codec and the frame\<close>

text \<open>
  C4, as stated: for every byte vector \<open>v\<close>, decoding the encoding of \<open>v\<close> gives \<open>v\<close>
  back, except that the all-zero value decodes to a single zero byte. The vector
  \<open>[0, 1]\<close> refutes it: its leading zero byte is lost.
\<close>

theorem base62_roundtrip_counterexample:
  "decode_base62 (encode_base62 [0, 1]) = Inr [1] \<and>
   decode_base62 (encode_base62 [0, 1]) \<noteq> Inr [0, 1]"
  using decode_encode_general [of "[0, 1]"] by simp

text \<open>
  C4, amended: for every byte vector \<open>v\<close>, decoding the encoding of \<open>v\<close> gives \<open>v\<close>
  without its leading zero bytes (a single zero byte when \<open>v\<close> is non-empty and all
  zero); it gives \<open>v\<close> itself whenever \<open>v\<close> is empty or starts with a non-zero byte.
\<close>

theorem base62_roundtrip:
  assumes "\<forall>b\<in>set v. b < 256"
  shows "decode_base62 (encode_base62 v) =
           Inr (if v = [] then [] else if \<forall>b\<in>set v. b = 0 then [0]
                else dropWhile (\<lambda>b. b = 0) v) \<and>
         (v = [] \<or> hd v \<noteq> 0 \<longrightarrow> decode_base62 (encode_base62 v) = Inr v)"
proof
  show g: "decode_base62 (encode_base62 v) =
           Inr (if v = [] then [] else if \<forall>b\<in>set v. b = 0 then [0]
                else dropWhile (\<lambda>b. b = 0) v)"
    using assms by (rule decode_encode_general)
  show "v = [] \<or> hd v \<noteq> 0 \<longrightarrow> decode_base62 (encode_base62 v) = Inr v"
  proof
    assume "v = [] \<or> hd v \<noteq> 0"
    then show "decode_base62 (encode_base62 v) = Inr v"
      unfolding g by (cases v) auto
  qed
qed

theorem base62_roundtrip_witness:
  "decode_base62 (encode_base62 [7, 0, 255]) = Inr [7, 0, 255] \<and>
   decode_base62 (encode_base62 [0, 0, 9]) = Inr [9]"
  using base62_roundtrip [of "[7, 0, 255]"] base62_roundtrip [of "[0, 0, 9]"] by simp

text \<open>
  C3, as stated: with at least five decoded bytes, the parser accepts whenever at least
  \<open>P\<close> bytes follow the header. A frame that declares \<open>P = 1\<close> and carries two value
  bytes refutes it: the parser fails with the length mismatch.
\<close>

theorem parse_longer_tail_counterexample:
  "decode_base62 (encode_base62 [1, 0, 1, 0, 1, 65, 66]) = Inr [1, 0, 1, 0, 1, 65, 66] \<and>
   parse_base62_share (encode_base62 [1, 0, 1, 0, 1, 65, 66]) = Inl (ParseFailed LengthMismatch)"
proof -
  have d: "decode_base62 (encode_base62 [1, 0, 1, 0, 1, 65, 66]) = Inr [1, 0, 1, 0, 1, 65, 66]"
    using decode_encode_general [of "[1, 0, 1, 0, 1, 65, 66]"] by simp
  from d parse_current_format [OF d] show ?thesis
    by (simp add: from_bytes_def)
qed

text \<open>
  C3, amended: for every share string whose decoded bytes have length at least 5, the
  parser accepts exactly when the number of bytes after the 5-byte header equals the
  declared \<open>P\<close>, and then returns the share id and the first \<open>L\<close> of those bytes; it
  fails with the length mismatch exactly when that number differs from \<open>P\<close>, whether
  fewer or more bytes follow.
\<close>

theorem parse_accepts_exact_length:
  assumes "decode_base62 s = Inr d" "5 \<le> length d"
  shows "parse_base62_share s =
           (if length (drop 5 d) = from_bytes (take 2 (drop 3 d))
            then Inr (d ! 0, take (from_bytes (take 2 (drop 1 d))) (drop 5 d))
            else Inl (ParseFailed LengthMismatch))"
  using parse_current_format [OF assms] by simp

theorem parse_accepts_exact_length_witness:
  "decode_base62 (encode_base62 [1, 0, 1, 0, 2, 65, 66]) = Inr [1, 0, 1, 0, 2, 65, 66] \<and>
   5 \<le> length [1, 0, 1, 0, 2, 65, 66 :: nat] \<and>
   parse_base62_share (encode_base62 [1, 0, 1, 0, 2, 65, 66]) = Inr (1, [65])"
proof -
  have d: "decode_base62 (encode_base62 [1, 0, 1, 0, 2, 65, 66]) = Inr [1, 0, 1, 0, 2, 65, 66]"
    using decode_encode_general [of "[1, 0, 1, 0, 2, 65, 66]"] by simp
  from d parse_accepts_exact_length [OF d] show ?thesis
    by (simp add: from_bytes_def)
qed

text \<open>
  C8, as stated: parsing a framed share recovers the share id, \<open>L\<close>, \<open>P\<close> and the full
  vector of share values. Framing 200 value bytes with \<open>L = 1\<close> refutes it: the parser
  returns the share id and the first value only.
\<close>

theorem frame_parse_counterexample:
  "ebind (format_share_with_original_length (\<lambda>i. i) 1 (replicate 200 65) 1 0)
     (\<lambda>r. parse_base62_share (fst r)) = Inr (1, [65]) \<and>
   [65] \<noteq> replicate 200 (65 :: nat)"
proof -
  have "length [65 :: nat] \<noteq> length (replicate 200 (65 :: nat))" by simp
  then have "[65] \<noteq> replicate 200 (65 :: nat)" by metis
  then show ?thesis
    using format_then_parse [of 1 1 "replicate 200 65" "\<lambda>i. i" 0] by simp
qed

text \<open>
  C8, amended: for a share id in \<open>1..255\<close>, an original length \<open>L \<le> 65535\<close> and a
  vector of \<open>P\<close> value bytes with \<open>182 \<le> P \<le> 65535\<close> (so that the frame encodes to at
  least 250 characters, as every share of \<open>generate_shares\<close> does), parsing the framed
  share returns the share id and the first \<open>L\<close> share values: all of them when
  \<open>L \<ge> P\<close>. \<open>L\<close> and \<open>P\<close> are not returned; \<open>P\<close> is only checked against the number
  of bytes after the header.
\<close>

theorem frame_parse_roundtrip:
  assumes "1 \<le> share_id" "share_id \<le> 255" "L < 65536" "length vals < 65536"
    "\<forall>b\<in>set vals. b < 256" "182 \<le> length vals"
  shows "ebind (format_share_with_original_length rs share_id vals L pos)
           (\<lambda>r. parse_base62_share (fst r)) = Inr (nat share_id, take L vals)"
  using assms by (rule format_then_parse)

theorem frame_parse_roundtrip_witness:
  "(1::int) \<le> 3 \<and> (3::int) \<le> 255 \<and> (190::nat) < 65536 \<and>
   length (replicate 190 (7::nat)) < 65536 \<and> list_all (\<lambda>b. b < 256) (replicate 190 (7::nat)) \<and>
   182 \<le> length (replicate 190 (7::nat)) \<and>
   ebind (format_share_with_original_length (\<lambda>i. i) 3 (replicate 190 7) 190 0)
     (\<lambda>r. parse_base62_share (fst r)) = Inr (3, replicate 190 7)"
  using frame_parse_roundtrip [of 3 190 "replicate 190 7" "\<lambda>i. i" 0]
  by (simp add: list_all_iff)

section \<open>Validator and UTF-8 lemmas\<close>

lemma validate_share_parameters_iff:
  "fst (validate_share_parameters N K) \<longleftrightarrow>
     (\<exists>n k. N = PyInt n \<and> K = PyInt k \<and> 2 \<le> n \<and> n \<le> 255 \<and> 2 \<le> k \<and> k \<le> n)"
  by (cases N; cases K) (auto simp: validate_share_parameters_def)

declare utf8_decode.simps [simp del]

lemma split_4096: "c mod 4096 = 64 * (c div 64 mod 64) + c mod 64" for c :: nat
  using mod_mult2_eq [of c 64 64] by simp

lemma split3: "c div 4096 * 4096 + c div 64 mod 64 * 64 + c mod 64 = c" for c :: nat
proof -
  have "c = c div 4096 * 4096 + c mod 4096" by simp
  then show ?thesis using split_4096 [of c] by linarith
qed

lemma split4:
  "c div 262144 * 262144 + c div 4096 mod 64 * 4096 + c div 64 mod 64 * 64 + c mod 64 = c"
  for c :: nat
proof -
  have "c mod 262144 = 4096 * (c div 4096 mod 64) + c mod 4096"
    using mod_mult2_eq [of c 4096 64] by simp
  moreover have "c = c div 262144 * 262144 + c mod 262144" by simp
  ultimately show ?thesis using split_4096 [of c] by linarith
qed

lemma utf8_decode_cp:
  assumes "utf8_encode_cp c = Inr cb"
  shows "utf8_decode (cb @ rest) = ebind (utf8_decode rest) (\<lambda>r. Inr (c # r))"
proof -
  consider "c < 0x80" | "0x80 \<le> c" "c < 0x800" | "0x800 \<le> c" "c < 0x10000" | "0x10000 \<le> c"
    by linarith
  then show ?thesis
  proof cases
    case 1
    with assms show ?thesis by (auto simp: utf8_encode_cp_def utf8_decode.simps)
  next
    case 2
    then have "c div 64 < 32" by simp
    with 2 assms show ?thesis
      by (auto simp: utf8_encode_cp_def utf8_decode.simps is_cont_def Let_def)
  next
    case 3
    then have "c div 4096 < 16" "c div 64 mod 64 < 64" by simp_all
    moreover note split3 [of c]
    ultimately show ?thesis
      using 3 assms
      by (auto simp: utf8_encode_cp_def utf8_decode.simps is_cont_def Let_def split: if_splits)
  next
    case 4
    with assms have hi: "c < 0x110000"
      by (auto simp: utf8_encode_cp_def split: if_splits)
    then have "c div 262144 < 8" by simp
    moreover note split4 [of c]
    ultimately show ?thesis
      using 4 hi assms
      by (auto simp: utf8_encode_cp_def utf8_decode.simps is_cont_def Let_def split: if_splits)
  qed
qed

lemma utf8_roundtrip: "utf8_encode s = Inr bs \<Longrightarrow> utf8_decode bs = Inr s"
proof (induction s arbitrary: bs)
  case Nil
  then show ?case by (simp add: utf8_decode.simps)
next
  case (Cons c cs)
  then obtain cb rest where e: "utf8_encode_cp c = Inr cb" "utf8_encode cs = Inr rest" "bs = cb @ rest"
    by (auto simp: ebind_def split: sum.splits)
  from Cons.IH [OF e(2)] utf8_decode_cp [OF e(1), of rest] e(3) show ?case
    by (simp add: ebind_def)
qed

lemma utf8_encode_cp_shape:
  "utf8_encode_cp c = Inr cb \<Longrightarrow> cb \<noteq> [] \<and> (\<forall>b\<in>set cb. b < 256)"
  by (auto simp: utf8_encode_cp_def split: if_splits)

lemma utf8_encode_shape:
  "utf8_encode s = Inr bs \<Longrightarrow> length s \<le> length bs \<and> (\<forall>b\<in>set bs. b < 256) \<and> (s = [] \<longleftrightarrow> bs = [])"
proof (induction s arbitrary: bs)
  case Nil
  then show ?case by simp
next
  case (Cons c cs)
  then obtain cb rest where e: "utf8_encode_cp c = Inr cb" "utf8_encode cs = Inr rest" "bs = cb @ rest"
    by (auto simp: ebind_def split: sum.splits)
  from utf8_encode_cp_shape [OF e(1)] have "1 \<le> length cb" "\<forall>b\<in>set cb. b < 256"
    by (simp_all add: Suc_le_eq)
  with Cons.IH [OF e(2)] e(3) show ?case by auto
qed

section \<open>GF(256) as a field\<close>

text \<open>
  The bytes with XOR as addition and the shift-and-reduce product as multiplication
  form a field; the table operations compute in it.
\<close>

lemma pmul_commute: "a < 256 \<Longrightarrow> b < 256 \<Longrightarrow> pmul a b = pmul b a"
proof (cases "a = 0 \<or> b = 0")
  case True
  then show ?thesis by (auto simp: pmul_0 pmul_zero_left)
next
  case False
  moreover assume "a < 256" "b < 256"
  ultimately obtain i j where "i < 255" "exp_lit ! i = a" "j < 255" "exp_lit ! j = b"
    using exp_lit_surj [of a] exp_lit_surj [of b] by auto
  then show ?thesis using exp_lit_mult [of i j] exp_lit_mult [of j i] by (simp add: add.commute)
qed

lemma pmul_assoc:
  assumes "a < 256" "b < 256" "c < 256"
  shows "pmul (pmul a b) c = pmul a (pmul b c)"
proof (cases "a = 0 \<or> b = 0 \<or> c = 0")
  case True
  then show ?thesis by (auto simp: pmul_0 pmul_zero_left)
next
  case False
  with assms obtain i j k where ijk: "i < 255" "exp_lit ! i = a" "j < 255" "exp_lit ! j = b"
      "k < 255" "exp_lit ! k = c"
    using exp_lit_surj [of a] exp_lit_surj [of b] exp_lit_surj [of c] by auto
  have "pmul (pmul a b) c = exp_lit ! (((i + j) mod 255 + k) mod 255)"
    using ijk exp_lit_mult [of i j] exp_lit_mult [of "(i + j) mod 255" k] by simp
  moreover have "pmul a (pmul b c) = exp_lit ! ((i + (j + k) mod 255) mod 255)"
    using ijk exp_lit_mult [of j k] exp_lit_mult [of i "(j + k) mod 255"] by simp
  moreover have "((i + j) mod 255 + k) mod 255 = (i + (j + k) mod 255) mod 255"
    by (simp add: mod_add_left_eq mod_add_right_eq add.assoc)
  ultimately show ?thesis by simp
qed

lemma pmul_inverse:
  assumes "0 < a" "a < 256"
  shows "\<exists>b<256. pmul b a = 1"
proof -
  from assms obtain i where i: "i < 255" "exp_lit ! i = a"
    using exp_lit_surj by blast
  have "pmul (exp_lit ! ((255 - i) mod 255)) (exp_lit ! i) = exp_lit ! (((255 - i) mod 255 + i) mod 255)"
    using i by (intro exp_lit_mult) simp_all
  moreover have "((255 - i) mod 255 + i) mod 255 = 0"
    using i(1) by (simp add: mod_add_left_eq)
  ultimately have "pmul (exp_lit ! ((255 - i) mod 255)) a = 1"
    using i by (simp add: exp_lit_0)
  moreover have "exp_lit ! ((255 - i) mod 255) < 256"
    by (rule exp_lit_byte) simp
  ultimately show ?thesis by blast
qed

typedef gf256 = "{n :: nat. n < 256}"
  by (rule exI [of _ 0]) simp

setup_lifting type_definition_gf256

instantiation gf256 :: field
begin

lift_definition zero_gf256 :: gf256 is 0 by simp
lift_definition one_gf256 :: gf256 is 1 by simp
lift_definition plus_gf256 :: "gf256 \<Rightarrow> gf256 \<Rightarrow> gf256" is "\<lambda>a b. a XOR b" by (rule xor_byte)
lift_definition minus_gf256 :: "gf256 \<Rightarrow> gf256 \<Rightarrow> gf256" is "\<lambda>a b. a XOR b" by (rule xor_byte)
lift_definition uminus_gf256 :: "gf256 \<Rightarrow> gf256" is "\<lambda>a. a" .
lift_definition times_gf256 :: "gf256 \<Rightarrow> gf256 \<Rightarrow> gf256" is pmul by (rule pmul_byte)
lift_definition inverse_gf256 :: "gf256 \<Rightarrow> gf256" is
  "\<lambda>a. if a = 0 then 0 else (if \<exists>b<256. pmul b a = 1 then (SOME b. b < 256 \<and> pmul b a = 1) else 0)"
proof -
  fix a :: nat
  show "(if a = 0 then 0 else (if \<exists>b<256. pmul b a = 1 then (SOME b. b < 256 \<and> pmul b a = 1) else 0)) < 256"
  proof (cases "a \<noteq> 0 \<and> (\<exists>b<256. pmul b a = 1)")
    case True
    then have "\<exists>b. b < 256 \<and> pmul b a = 1" by blast
    from someI_ex [OF this] True show ?thesis by simp
  next
    case False
    then show ?thesis by auto
  qed
qed

definition divide_gf256 :: "gf256 \<Rightarrow> gf256 \<Rightarrow> gf256" where
  "divide a b = a * inverse b" for a b :: gf256

instance
proof
  fix a b c :: gf256
  show "a * b * c = a * (b * c)" by transfer (rule pmul_assoc)
  show "a * b = b * a" by transfer (rule pmul_commute)
  show "1 * a = a" by transfer (simp add: pmul_commute pmul_1)
  show "a + b + c = a + (b + c)" by transfer (simp add: xor.assoc)
  show "a + b = b + a" by transfer (simp add: xor.commute)
  show "0 + a = a" by transfer simp
  show "- a + a = 0" by transfer simp
  show "a - b = a + - b" by transfer simp
  show "(a + b) * c = a * c + b * c" by transfer (rule pmul_xor_left)
  show "(0::gf256) \<noteq> 1" by transfer simp
  show "a \<noteq> 0 \<Longrightarrow> inverse a * a = 1"
  proof transfer
    fix a :: nat assume a: "a < 256" "a \<noteq> 0"
    then have "\<exists>b. b < 256 \<and> pmul b a = 1" using pmul_inverse [of a] by auto
    from someI_ex [OF this] a this
    show "pmul (if a = 0 then 0 else (if \<exists>b<256. pmul b a = 1 then (SOME b. b < 256 \<and> pmul b a = 1) else 0)) a = 1"
      by auto
  qed
  show "divide a b = a * inverse b" by (rule divide_gf256_def)
  show "inverse (0::gf256) = 0" by transfer simp
qed

end

lift_definition of_gf :: "gf256 \<Rightarrow> int" is int .

lift_definition to_gf :: "int \<Rightarrow> gf256" is "\<lambda>x. nat x mod 256" by simp

definition is_byte :: "int \<Rightarrow> bool" where
  "is_byte x = (0 \<le> x \<and> x < 256)"

lemma of_gf_byte: "is_byte (of_gf g)"
  unfolding is_byte_def by transfer simp

lemma of_to_gf: "is_byte x \<Longrightarrow> of_gf (to_gf x) = x"
  unfolding is_byte_def by transfer (simp add: zmod_int)

lemma to_of_gf: "to_gf (of_gf g) = g"
  by transfer simp

lemma to_gf_inj: "is_byte x \<Longrightarrow> is_byte y \<Longrightarrow> to_gf x = to_gf y \<Longrightarrow> x = y"
  by (metis of_to_gf)

lemma to_gf_0: "to_gf 0 = 0"
  by transfer simp

lemma to_gf_1: "to_gf 1 = 1"
  by transfer simp

lemma xor_gf: "is_byte a \<Longrightarrow> is_byte b \<Longrightarrow> a XOR b = of_gf (to_gf a + to_gf b)"
  unfolding is_byte_def
proof transfer
  fix a b :: int assume "0 \<le> a \<and> a < 256" "0 \<le> b \<and> b < 256"
  then have "a = int (nat a)" "b = int (nat b)" "nat a < 256" "nat b < 256"
    by (simp_all add: nat_less_iff)
  then show "a XOR b = int (nat a mod 256 XOR nat b mod 256)"
    by (metis mod_less of_nat_xor_eq)
qed

lemma gf_mult_gf:
  assumes "is_byte a" "is_byte b"
  shows "gf_mult a b = Inr (of_gf (to_gf a * to_gf b))"
proof -
  from assms have n: "a = int (nat a)" "b = int (nat b)" "nat a < 256" "nat b < 256"
    by (simp_all add: is_byte_def nat_less_iff)
  have "gf_mult (int (nat a)) (int (nat b)) = Inr (int (pmul (nat a) (nat b)))"
    using gf_mult_table_basic [OF n(3,4)] by (simp add: gf_mult_basic_pmul n(3))
  moreover have "of_gf (to_gf a * to_gf b) = int (pmul (nat a) (nat b))"
    using n(3,4) by transfer simp
  ultimately show ?thesis using n(1,2) by simp
qed

lemma gf_div_gf:
  assumes "is_byte a" "is_byte b" "b \<noteq> 0"
  shows "gf_div a b = Inr (of_gf (to_gf a / to_gf b))"
proof -
  have bne: "to_gf b \<noteq> 0"
    using assms(2,3) to_gf_inj [of b 0] by (auto simp: to_gf_0 is_byte_def)
  let ?q = "to_gf a / to_gf b"
  have q: "?q * to_gf b = to_gf a" using bne by simp
  have qb: "is_byte (of_gf ?q)" by (rule of_gf_byte)
  have "ebind (gf_mult (of_gf ?q) b) (\<lambda>p. gf_div p b) = Inr (of_gf ?q)"
    using qb assms(2,3) by (intro gf_div_mult_cancel) (simp_all add: is_byte_def)
  moreover have "gf_mult (of_gf ?q) b = Inr a"
    using gf_mult_gf [OF qb assms(2)] q assms(1) by (simp add: to_of_gf of_to_gf)
  ultimately show ?thesis by (simp add: ebind_def)
qed

section \<open>Polynomials over a field and interpolation\<close>

text \<open>
  Coefficient lists, lowest degree first, with Horner evaluation; the Lagrange basis and
  the interpolation sum as the code computes them, over any field.
\<close>

fun peval :: "'a::field list \<Rightarrow> 'a \<Rightarrow> 'a" where
  "peval [] x = 0"
| "peval (c # cs) x = c + x * peval cs x"

fun sdiv :: "'a::field \<Rightarrow> 'a list \<Rightarrow> 'a list" where
  "sdiv a [] = []"
| "sdiv a [c] = []"
| "sdiv a (c # d # ds) = peval (d # ds) a # sdiv a (d # ds)"

fun padd :: "'a::field list \<Rightarrow> 'a list \<Rightarrow> 'a list" where
  "padd [] q = q"
| "padd p [] = p"
| "padd (a # p) (b # q) = (a + b) # padd p q"

definition plin :: "'a::field \<Rightarrow> 'a list \<Rightarrow> 'a list" where
  "plin a p = padd (0 # p) (map ((*) (- a)) p)"

fun lbasis :: "'a::field list \<Rightarrow> 'a \<Rightarrow> 'a \<Rightarrow> 'a" where
  "lbasis [] xi x = 1"
| "lbasis (xj # xs) xi x =
     (if xj \<noteq> xi then lbasis xs xi x * ((x - xj) / (xi - xj)) else lbasis xs xi x)"

fun bpoly :: "'a::field list \<Rightarrow> 'a \<Rightarrow> 'a list" where
  "bpoly [] xi = [1]"
| "bpoly (xj # xs) xi =
     (if xj \<noteq> xi then map ((*) (inverse (xi - xj))) (plin xj (bpoly xs xi)) else bpoly xs xi)"

fun linterp :: "'a::field list \<Rightarrow> ('a \<times> 'a) list \<Rightarrow> 'a \<Rightarrow> 'a" where
  "linterp xs [] x = 0"
| "linterp xs ((xi, yi) # ps) x = yi * lbasis xs xi x + linterp xs ps x"

fun ipoly :: "'a::field list \<Rightarrow> ('a \<times> 'a) list \<Rightarrow> 'a list" where
  "ipoly xs [] = []"
| "ipoly xs ((xi, yi) # ps) = padd (map ((*) yi) (bpoly xs xi)) (ipoly xs ps)"

lemma sdiv_length: "length (sdiv a p) = length p - 1"
  by (induction a p rule: sdiv.induct) simp_all

lemma sdiv_correct: "peval p x = peval p a + (x - a) * peval (sdiv a p) x"
proof (induction a p rule: sdiv.induct)
  case (3 a c d ds)
  define Px where "Px = peval (d # ds) x"
  define Pa where "Pa = peval (d # ds) a"
  define Q where "Q = peval (sdiv a (d # ds)) x"
  have e: "Px = Pa + (x - a) * Q"
    unfolding Px_def Pa_def Q_def by (rule 3)
  have "c + x * Px = c + a * Pa + (x - a) * (Pa + x * Q)"
    unfolding e by (simp add: algebra_simps)
  then show ?case
    unfolding Px_def Pa_def Q_def by simp
qed simp_all

lemma poly_roots:
  "length p \<le> length rs \<Longrightarrow> distinct rs \<Longrightarrow> \<forall>r\<in>set rs. peval p r = 0 \<Longrightarrow> peval p x = 0"
proof (induction rs arbitrary: p x)
  case Nil
  then show ?case by simp
next
  case (Cons a rs)
  have fac: "peval p y = (y - a) * peval (sdiv a p) y" for y
    using sdiv_correct [of p y a] Cons.prems(3) by simp
  have "peval (sdiv a p) x = 0"
  proof (rule Cons.IH)
    show "length (sdiv a p) \<le> length rs"
      using Cons.prems(1) by (simp add: sdiv_length)
    show "distinct rs" using Cons.prems(2) by simp
    show "\<forall>r\<in>set rs. peval (sdiv a p) r = 0"
    proof
      fix r assume r: "r \<in> set rs"
      with Cons.prems(2) have "r \<noteq> a" by auto
      moreover have "peval p r = 0" using Cons.prems(3) r by simp
      ultimately show "peval (sdiv a p) r = 0" using fac [of r] by simp
    qed
  qed
  then show ?case using fac [of x] by simp
qed

lemma peval_padd: "peval (padd p q) x = peval p x + peval q x"
  by (induction p q rule: padd.induct) (simp_all add: algebra_simps)

lemma length_padd: "length (padd p q) = max (length p) (length q)"
  by (induction p q rule: padd.induct) simp_all

lemma peval_smult: "peval (map ((*) c) p) x = c * peval p x"
  by (induction p) (simp_all add: algebra_simps)

lemma peval_plin: "peval (plin a p) x = (x - a) * peval p x"
  by (simp add: plin_def peval_padd peval_smult algebra_simps)

lemma length_plin: "length (plin a p) = Suc (length p)"
  by (simp add: plin_def length_padd)

lemma peval_bpoly: "peval (bpoly xs xi) x = lbasis xs xi x"
  by (induction xs) (simp_all add: peval_smult peval_plin divide_inverse algebra_simps)

lemma length_bpoly: "length (bpoly xs xi) = Suc (length (filter (\<lambda>xj. xj \<noteq> xi) xs))"
  by (induction xs) (simp_all add: length_plin)

lemma length_bpoly_le: "xi \<in> set xs \<Longrightarrow> length (bpoly xs xi) \<le> length xs"
proof -
  assume "xi \<in> set xs"
  then have "length (filter (\<lambda>xj. xj \<noteq> xi) xs) < length xs"
    by (intro length_filter_less [of xi]) simp_all
  then show ?thesis by (simp add: length_bpoly)
qed

lemma peval_ipoly: "peval (ipoly xs ps) x = linterp xs ps x"
  by (induction xs ps rule: ipoly.induct) (simp_all add: peval_padd peval_smult peval_bpoly)

lemma length_ipoly: "fst ` set ps \<subseteq> set xs \<Longrightarrow> length (ipoly xs ps) \<le> length xs"
  by (induction xs ps rule: ipoly.induct) (simp_all add: length_padd length_bpoly_le)

lemma lbasis_self: "lbasis xs xi xi = 1"
  by (induction xs) simp_all

lemma lbasis_other: "xk \<in> set xs \<Longrightarrow> xk \<noteq> xi \<Longrightarrow> lbasis xs xi xk = 0"
  by (induction xs) auto

lemma linterp_absent: "xk \<in> set xs \<Longrightarrow> xk \<notin> fst ` set ps \<Longrightarrow> linterp xs ps xk = 0"
  by (induction xs ps rule: ipoly.induct) (auto simp: lbasis_other)

lemma linterp_node:
  "distinct (map fst ps) \<Longrightarrow> (xk, yk) \<in> set ps \<Longrightarrow> xk \<in> set xs \<Longrightarrow> linterp xs ps xk = yk"
proof (induction xs ps rule: ipoly.induct)
  case (1 xs)
  then show ?case by simp
next
  case (2 xs xi yi ps)
  show ?case
  proof (cases "xi = xk")
    case True
    with "2.prems" have "yi = yk" "xk \<notin> fst ` set ps"
      by (auto simp: image_iff)
    then show ?thesis using True "2.prems"(3) by (simp add: lbasis_self linterp_absent)
  next
    case False
    with "2.prems" have "(xk, yk) \<in> set ps" by auto
    with "2.IH" "2.prems" False show ?thesis by (simp add: lbasis_other)
  qed
qed

theorem lagrange_field:
  fixes f :: "'a::field list"
  assumes "distinct xs" "length f \<le> length xs"
  shows "linterp xs (map (\<lambda>xi. (xi, peval f xi)) xs) x = peval f x"
proof -
  let ?ps = "map (\<lambda>xi. (xi, peval f xi)) xs"
  let ?h = "padd (ipoly xs ?ps) (map ((*) (- 1)) f)"
  have fst: "map fst ?ps = xs" by (simp add: comp_def)
  have "peval ?h x = 0"
  proof (rule poly_roots [OF _ assms(1)])
    have "length (ipoly xs ?ps) \<le> length xs"
      by (rule length_ipoly) (simp add: image_image)
    then show "length ?h \<le> length xs" using assms(2) by (simp add: length_padd)
    show "\<forall>r\<in>set xs. peval ?h r = 0"
    proof
      fix r assume r: "r \<in> set xs"
      then have "(r, peval f r) \<in> set ?ps" by auto
      with assms(1) r have "linterp xs ?ps r = peval f r"
        by (intro linterp_node) (simp_all add: comp_def)
      then show "peval ?h r = 0" by (simp add: peval_padd peval_ipoly peval_smult)
    qed
  qed
  then show ?thesis by (simp add: peval_padd peval_ipoly peval_smult)
qed

section \<open>The code computes in the field\<close>

lemma gf_minus: "a - b = a + b" for a b :: gf256
  by transfer simp

lemma is_byte_0: "is_byte 0"
  by (simp add: is_byte_def)

lemma is_byte_1: "is_byte 1"
  by (simp add: is_byte_def)

lemma is_byte_xor: "is_byte a \<Longrightarrow> is_byte b \<Longrightarrow> is_byte (a XOR b)"
  by (simp add: xor_gf of_gf_byte)

lemma to_gf_xor: "is_byte a \<Longrightarrow> is_byte b \<Longrightarrow> to_gf (a XOR b) = to_gf a + to_gf b"
  by (simp add: xor_gf to_of_gf)

lemma to_gf_eq_iff: "is_byte a \<Longrightarrow> is_byte b \<Longrightarrow> to_gf a = to_gf b \<longleftrightarrow> a = b"
  using to_gf_inj by blast

lemma xor_eq_0_byte: "is_byte a \<Longrightarrow> is_byte b \<Longrightarrow> a XOR b = 0 \<longleftrightarrow> a = b"
proof -
  assume a: "is_byte a" and b: "is_byte b"
  have "a XOR b = 0 \<longleftrightarrow> to_gf (a XOR b) = to_gf 0"
    using to_gf_eq_iff [OF is_byte_xor [OF a b] is_byte_0] by simp
  also have "\<dots> \<longleftrightarrow> to_gf a + to_gf b = 0" by (simp add: to_gf_xor a b to_gf_0)
  also have "\<dots> \<longleftrightarrow> to_gf a - to_gf b = 0" by (simp add: gf_minus)
  also have "\<dots> \<longleftrightarrow> a = b" using to_gf_eq_iff [OF a b] by simp
  finally show ?thesis .
qed

lemma evaluate_loop_gf:
  assumes "\<forall>c\<in>set cs. is_byte c" "is_byte x" "is_byte r"
  shows "evaluate_loop cs x r =
           Inr (of_gf (foldl (\<lambda>acc c. acc * to_gf x + c) (to_gf r) (map to_gf cs)))"
  using assms
proof (induction cs arbitrary: r)
  case Nil
  then show ?case by (simp add: of_to_gf)
next
  case (Cons c cs)
  have m: "gf_mult r x = Inr (of_gf (to_gf r * to_gf x))"
    using Cons.prems by (simp add: gf_mult_gf)
  have b: "is_byte (of_gf (to_gf r * to_gf x) XOR c)"
    using Cons.prems by (simp add: is_byte_xor of_gf_byte)
  have "to_gf (of_gf (to_gf r * to_gf x) XOR c) = to_gf r * to_gf x + to_gf c"
    using Cons.prems by (simp add: to_gf_xor of_gf_byte to_of_gf)
  with Cons.IH [OF _ Cons.prems(2) b] Cons.prems(1) show ?case
    by (simp add: m ebind_def)
qed

lemma foldl_horner: "foldl (\<lambda>acc c. acc * x + c) 0 (rev cs) = peval cs x" for x :: "'a::field"
  by (induction cs) (simp_all add: algebra_simps)

lemma evaluate_polynomial_gf:
  assumes "\<forall>c\<in>set cs. is_byte c" "is_byte x"
  shows "evaluate_polynomial cs x = Inr (of_gf (peval (map to_gf cs) (to_gf x)))"
proof -
  have "evaluate_polynomial cs x =
      Inr (of_gf (foldl (\<lambda>acc c. acc * to_gf x + c) (to_gf 0) (map to_gf (rev cs))))"
    unfolding evaluate_polynomial_def using assms
    by (intro evaluate_loop_gf) (simp_all add: is_byte_0)
  then show ?thesis
    using foldl_horner [of "to_gf x" "map to_gf cs"] by (simp add: to_gf_0 rev_map)
qed

text \<open>
  The inner loop at outer index \<open>i\<close>, started at position \<open>j\<close> on the rest \<open>ps\<close> of
  the points: when only position \<open>i\<close> carries \<open>xi\<close>, it multiplies the basis factors.
\<close>

lemma lagrange_inner_gf:
  assumes "\<forall>p\<in>set ps. is_byte (fst p)" "is_byte xi" "is_byte x" "is_byte li"
    "\<forall>k<length ps. (fst (ps ! k) = xi) = (j + k = i)"
  shows "lagrange_inner ps i j xi x li =
           Inr (of_gf (to_gf li * lbasis (map (\<lambda>p. to_gf (fst p)) ps) (to_gf xi) (to_gf x)))"
  using assms
proof (induction ps arbitrary: j li)
  case Nil
  then show ?case by (simp add: of_to_gf)
next
  case (Cons p ps)
  obtain xj yj where p: "p = (xj, yj)" by (cases p)
  have xj: "is_byte xj" using Cons.prems(1) p by simp
  have hd: "(xj = xi) = (j = i)" using Cons.prems(5) p by auto
  have tl: "\<forall>k<length ps. (fst (ps ! k) = xi) = (Suc j + k = i)"
    using Cons.prems(5) by auto
  have bs: "\<forall>p\<in>set ps. is_byte (fst p)" using Cons.prems(1) by simp
  show ?case
  proof (cases "i = j")
    case True
    with hd have "xj = xi" by simp
    with True Cons.IH [OF bs Cons.prems(2,3,4) tl] show ?thesis
      by (simp add: p)
  next
    case False
    with hd have ne: "xj \<noteq> xi" by auto
    then have gne: "to_gf xj \<noteq> to_gf xi"
      using to_gf_eq_iff [OF xj Cons.prems(2)] by simp
    have d0: "xi XOR xj \<noteq> 0"
      using xor_eq_0_byte [OF Cons.prems(2) xj] ne by auto
    have q: "gf_div (x XOR xj) (xi XOR xj) =
        Inr (of_gf ((to_gf x - to_gf xj) / (to_gf xi - to_gf xj)))"
      using gf_div_gf [OF is_byte_xor [OF Cons.prems(3) xj] is_byte_xor [OF Cons.prems(2) xj] d0]
      by (simp add: to_gf_xor Cons.prems xj gf_minus)
    let ?q = "(to_gf x - to_gf xj) / (to_gf xi - to_gf xj)"
    have m: "gf_mult li (of_gf ?q) = Inr (of_gf (to_gf li * ?q))"
      using gf_mult_gf [OF Cons.prems(4) of_gf_byte [of ?q]] by (simp add: to_of_gf)
    have "lagrange_inner (p # ps) i j xi x li = lagrange_inner ps i (Suc j) xi x (of_gf (to_gf li * ?q))"
      using False ne by (simp add: p q m ebind_def)
    also have "\<dots> = Inr (of_gf (to_gf (of_gf (to_gf li * ?q)) *
        lbasis (map (\<lambda>p. to_gf (fst p)) ps) (to_gf xi) (to_gf x)))"
      by (rule Cons.IH [OF bs Cons.prems(2,3) of_gf_byte tl])
    finally show ?thesis
      using gne by (simp add: p to_of_gf mult_ac)
  qed
qed

text \<open>The inner loop when some other position carries \<open>xi\<close> as well.\<close>

lemma lagrange_inner_dup:
  assumes "\<forall>p\<in>set ps. is_byte (fst p)" "is_byte xi" "is_byte x" "is_byte li"
    "\<exists>k<length ps. fst (ps ! k) = xi \<and> j + k \<noteq> i"
  shows "lagrange_inner ps i j xi x li = Inl DuplicateX"
  using assms
proof (induction ps arbitrary: j li)
  case Nil
  then show ?case by simp
next
  case (Cons p ps)
  obtain xj yj where p: "p = (xj, yj)" by (cases p)
  have xj: "is_byte xj" using Cons.prems(1) p by simp
  have bs: "\<forall>p\<in>set ps. is_byte (fst p)" using Cons.prems(1) by simp
  from Cons.prems(5) obtain k where k: "k < Suc (length ps)" "fst ((p # ps) ! k) = xi" "j + k \<noteq> i"
    by auto
  show ?case
  proof (cases "i \<noteq> j \<and> xi = xj")
    case True
    then show ?thesis by (simp add: p)
  next
    case False
    then have "k \<noteq> 0" using k p by (cases k) auto
    then obtain k' where k': "k = Suc k'" by (cases k) simp_all
    with k have ex: "\<exists>k<length ps. fst (ps ! k) = xi \<and> Suc j + k \<noteq> i" by auto
    show ?thesis
    proof (cases "i = j")
      case True
      with Cons.IH [OF bs Cons.prems(2,3,4) ex] show ?thesis by (simp add: p)
    next
      case ij: False
      with False have ne: "xi \<noteq> xj" by simp
      have d0: "xi XOR xj \<noteq> 0"
        using xor_eq_0_byte [OF Cons.prems(2) xj] ne by auto
      obtain q where q: "gf_div (x XOR xj) (xi XOR xj) = Inr q" "is_byte q"
        using gf_div_gf [OF is_byte_xor [OF Cons.prems(3) xj] is_byte_xor [OF Cons.prems(2) xj] d0]
          of_gf_byte by blast
      obtain li' where m: "gf_mult li q = Inr li'" "is_byte li'"
        using gf_mult_gf [OF Cons.prems(4) q(2)] of_gf_byte by blast
      from Cons.IH [OF bs Cons.prems(2,3) m(2) ex] ij ne show ?thesis
        by (simp add: p q m ebind_def)
    qed
  qed
qed

section \<open>The interpolation loops\<close>

definition gf_point :: "int \<times> int \<Rightarrow> gf256 \<times> gf256" where
  "gf_point p = (to_gf (fst p), to_gf (snd p))"

definition byte_points :: "(int \<times> int) list \<Rightarrow> bool" where
  "byte_points points = (\<forall>p\<in>set points. is_byte (fst p) \<and> is_byte (snd p))"

lemma gf_point_pair: "gf_point (a, b) = (to_gf a, to_gf b)"
  by (simp add: gf_point_def)

lemma unique_x:
  assumes "distinct (map fst points)" "i < length points"
  shows "\<forall>k<length points. (fst (points ! k) = fst (points ! i)) = (0 + k = i)"
proof (intro allI impI)
  fix k assume k: "k < length points"
  have "(map fst points ! k = map fst points ! i) = (k = i)"
    using assms k by (intro nth_eq_iff_index_eq) simp_all
  then show "(fst (points ! k) = fst (points ! i)) = (0 + k = i)"
    using assms(2) k by simp
qed

lemma lagrange_outer_gf:
  assumes "byte_points points" "is_byte x" "is_byte result" "distinct (map fst points)"
    "ps = drop i points"
  shows "lagrange_outer points ps i x result =
           Inr (of_gf (to_gf result +
             linterp (map (\<lambda>p. to_gf (fst p)) points) (map gf_point ps) (to_gf x)))"
  using assms(3,5)
proof (induction ps arbitrary: i result)
  case Nil
  then show ?case by (simp add: of_to_gf)
next
  case (Cons p ps)
  obtain xi yi where p: "p = (xi, yi)" by (cases p)
  from Cons.prems(2) have i: "i < length points"
    by (metis drop_all list.distinct(1) not_le)
  then have pi: "points ! i = (xi, yi)" and rest: "ps = drop (Suc i) points"
    using Cons.prems(2) p by (metis Cons_nth_drop_Suc list.inject)+
  have mem: "(xi, yi) \<in> set points" using i pi by (metis nth_mem)
  then have xi: "is_byte xi" and yi: "is_byte yi"
    using assms(1) by (auto simp: byte_points_def)
  have bs: "\<forall>p\<in>set points. is_byte (fst p)"
    using assms(1) by (simp add: byte_points_def)
  let ?L = "lbasis (map (\<lambda>p. to_gf (fst p)) points) (to_gf xi) (to_gf x)"
  have inner: "lagrange_inner points i 0 xi x 1 = Inr (of_gf (to_gf 1 * ?L))"
    using unique_x [OF assms(4) i] pi
    by (intro lagrange_inner_gf [OF bs xi assms(2) is_byte_1]) simp
  have m: "gf_mult yi (of_gf ?L) = Inr (of_gf (to_gf yi * ?L))"
    using gf_mult_gf [OF yi of_gf_byte [of ?L]] by (simp add: to_of_gf)
  have nb: "is_byte (result XOR of_gf (to_gf yi * ?L))"
    using Cons.prems(1) by (simp add: is_byte_xor of_gf_byte)
  have "lagrange_outer points (p # ps) i x result =
      lagrange_outer points ps (Suc i) x (result XOR of_gf (to_gf yi * ?L))"
    by (simp add: p inner to_gf_1 m ebind_def)
  also have "\<dots> = Inr (of_gf (to_gf (result XOR of_gf (to_gf yi * ?L)) +
       linterp (map (\<lambda>p. to_gf (fst p)) points) (map gf_point ps) (to_gf x)))"
    by (rule Cons.IH [OF nb rest])
  finally show ?case
    using Cons.prems(1)
    by (simp add: p gf_point_pair to_gf_xor of_gf_byte to_of_gf add.assoc)
qed

lemma lagrange_interpolation_gf:
  assumes "byte_points points" "is_byte x" "distinct (map fst points)" "points \<noteq> []"
  shows "lagrange_interpolation points x =
           Inr (of_gf (linterp (map (\<lambda>p. to_gf (fst p)) points) (map gf_point points) (to_gf x)))"
  using lagrange_outer_gf [OF assms(1,2) is_byte_0 assms(3), of points 0] assms(4)
  by (simp add: lagrange_interpolation_def to_gf_0)

lemma lagrange_outer_dup:
  assumes "byte_points points" "is_byte x" "is_byte result" "ps = drop i points"
    "\<exists>m n. i \<le> m \<and> m < length points \<and> n < length points \<and> n \<noteq> m \<and>
       fst (points ! n) = fst (points ! m)"
  shows "lagrange_outer points ps i x result = Inl DuplicateX"
  using assms(3,4,5)
proof (induction ps arbitrary: i result)
  case Nil
  then show ?case by (auto simp: not_less [symmetric])
next
  case (Cons p ps)
  obtain xi yi where p: "p = (xi, yi)" by (cases p)
  from Cons.prems(2) have i: "i < length points"
    by (metis drop_all list.distinct(1) not_le)
  then have pi: "points ! i = (xi, yi)" and rest: "ps = drop (Suc i) points"
    using Cons.prems(2) p by (metis Cons_nth_drop_Suc list.inject)+
  have mem: "(xi, yi) \<in> set points" using i pi by (metis nth_mem)
  then have xi: "is_byte xi" and yi: "is_byte yi"
    using assms(1) by (auto simp: byte_points_def)
  have bs: "\<forall>p\<in>set points. is_byte (fst p)"
    using assms(1) by (simp add: byte_points_def)
  show ?case
  proof (cases "\<exists>k<length points. fst (points ! k) = xi \<and> 0 + k \<noteq> i")
    case True
    then have "lagrange_inner points i 0 xi x 1 = Inl DuplicateX"
      by (rule lagrange_inner_dup [OF bs xi assms(2) is_byte_1])
    then show ?thesis by (simp add: p ebind_def)
  next
    case False
    then have uniq: "\<forall>k<length points. (fst (points ! k) = xi) = (0 + k = i)"
      using pi by auto
    let ?L = "lbasis (map (\<lambda>p. to_gf (fst p)) points) (to_gf xi) (to_gf x)"
    have inner: "lagrange_inner points i 0 xi x 1 = Inr (of_gf (to_gf 1 * ?L))"
      by (rule lagrange_inner_gf [OF bs xi assms(2) is_byte_1 uniq])
    have m: "gf_mult yi (of_gf ?L) = Inr (of_gf (to_gf yi * ?L))"
      using gf_mult_gf [OF yi of_gf_byte [of ?L]] by (simp add: to_of_gf)
    have nb: "is_byte (result XOR of_gf (to_gf yi * ?L))"
      using Cons.prems(1) by (simp add: is_byte_xor of_gf_byte)
    from Cons.prems(3) obtain m n where mn: "i \<le> m" "m < length points" "n < length points"
        "n \<noteq> m" "fst (points ! n) = fst (points ! m)"
      by blast
    have "m \<noteq> i"
    proof
      assume "m = i"
      with mn pi have "fst (points ! n) = xi" "n \<noteq> i" by simp_all
      with False mn(3) show False by auto
    qed
    with mn have ex: "\<exists>m n. Suc i \<le> m \<and> m < length points \<and> n < length points \<and> n \<noteq> m \<and>
       fst (points ! n) = fst (points ! m)"
      by (intro exI [of _ m] exI [of _ n]) simp
    have "lagrange_outer points (p # ps) i x result =
        lagrange_outer points ps (Suc i) x (result XOR of_gf (to_gf yi * ?L))"
      by (simp add: p inner to_gf_1 m ebind_def)
    also have "\<dots> = Inl DuplicateX"
      by (rule Cons.IH [OF nb rest ex])
    finally show ?thesis .
  qed
qed

lemma lagrange_interpolation_dup:
  assumes "byte_points points" "is_byte x" "\<not> distinct (map fst points)"
  shows "lagrange_interpolation points x = Inl DuplicateX"
proof -
  from assms(3) obtain m n where "m < length points" "n < length points" "n \<noteq> m"
      "map fst points ! n = map fst points ! m"
    by (auto simp: distinct_conv_nth)
  then have ex: "\<exists>m n. 0 \<le> m \<and> m < length points \<and> n < length points \<and> n \<noteq> m \<and>
       fst (points ! n) = fst (points ! m)"
    by (intro exI [of _ m] exI [of _ n]) simp
  then have "points \<noteq> []" by auto
  with lagrange_outer_dup [OF assms(1,2) is_byte_0 _ ex, of points] show ?thesis
    by (simp add: lagrange_interpolation_def)
qed

section \<open>Reconstruction lemmas\<close>

lemma parse_result_bytes:
  assumes "parse_base62_share s = Inr (sid, vals)"
  shows "sid < 256 \<and> (\<forall>b\<in>set vals. b < 256)"
proof -
  from assms obtain d where d: "decode_base62 s = Inr d"
    by (auto simp: parse_base62_share_def parse_base62_share_body_def ebind_def
        split: sum.splits)
  have db: "\<forall>b\<in>set d. b < 256" using decoded_bytes_shape [OF d] by simp
  have sub: "set (take n (drop m d)) \<subseteq> set d" for n m
    by (meson set_drop_subset set_take_subset subset_trans)
  have "d \<noteq> [] \<Longrightarrow> d ! 0 \<in> set d" by simp
  with assms d db sub show ?thesis
    by (auto simp: parse_base62_share_def parse_base62_share_body_def ebind_def Let_def
        split: sum.splits if_splits)
qed

lemma bytes_of_int: "\<forall>b\<in>set vals. b < 256 \<Longrightarrow> bytes_of (map int vals) = Inr vals"
  by (simp add: bytes_of_def comp_def)

lemma parse_shares_single:
  assumes "parse_base62_share s = Inr (sid, vals)"
  shows "parse_shares int16 [s] [] None = Inr ([(int sid, map int vals)], Some (length vals))"
  using assms by (simp add: parse_share_def base62_attempt_def ebind_def)

lemma lagrange_single:
  assumes "is_byte x" "is_byte y"
  shows "lagrange_interpolation [(x, y)] 0 = Inr y"
  using assms
  by (simp add: lagrange_interpolation_def ebind_def gf_mult_one is_byte_def)

lemma reconstruct_bytes_single:
  assumes "is_byte x" "\<forall>v\<in>set vs. is_byte v" "\<forall>b\<in>set bs. b < length vs"
  shows "reconstruct_bytes [(x, vs)] bs acc = Inr (acc @ map (\<lambda>b. vs ! b) bs)"
  using assms(3)
proof (induction bs arbitrary: acc)
  case Nil
  then show ?case by simp
next
  case (Cons b bs)
  then have "is_byte (vs ! b)" using assms(2) by simp
  with Cons assms(1) show ?case
    by (simp add: ebind_def lagrange_single)
qed

lemma reconstruct_single:
  assumes "parse_base62_share s = Inr (sid, vals)"
  shows "reconstruct_secret int16 [s] =
           (case utf8_decode vals of Inl e \<Rightarrow> Inl BadUtf8 | Inr secret \<Rightarrow> Inr secret)"
proof -
  from parse_result_bytes [OF assms] have b: "sid < 256" "\<forall>b\<in>set vals. b < 256"
    by simp_all
  have "reconstruct_bytes [(int sid, map int vals)] [0..<length vals] [] =
      Inr ([] @ map (\<lambda>b. map int vals ! b) [0..<length vals])"
    using b by (intro reconstruct_bytes_single) (simp_all add: is_byte_def)
  also have "map (\<lambda>b. map int vals ! b) [0..<length vals] = map int vals"
    using map_nth [of "map int vals"] by simp
  finally have r: "reconstruct_bytes [(int sid, map int vals)] [0..<length vals] [] =
      Inr (map int vals)" by simp
  show ?thesis
    unfolding reconstruct_secret_def parse_shares_single [OF assms]
    using b(2) by (simp add: ebind_def r bytes_of_int)
qed

lemma parse_small_frame:
  "parse_base62_share (encode_base62 [1, 0, 1, 0, 1, 65]) = Inr (1, [65])"
proof -
  have d: "decode_base62 (encode_base62 [1, 0, 1, 0, 1, 65]) = Inr [1, 0, 1, 0, 1, 65]"
    using decode_encode_general [of "[1, 0, 1, 0, 1, 65]"] by simp
  from d parse_current_format [OF d] show ?thesis
    by (simp add: from_bytes_def)
qed

lemma parse_empty_frame:
  "parse_base62_share (encode_base62 [1, 0, 0, 0, 1, 65]) = Inr (1, [])"
proof -
  have d: "decode_base62 (encode_base62 [1, 0, 0, 0, 1, 65]) = Inr [1, 0, 0, 0, 1, 65]"
    using decode_encode_general [of "[1, 0, 0, 0, 1, 65]"] by simp
  from d parse_current_format [OF d] show ?thesis
    by (simp add: from_bytes_def)
qed

lemma parse_empty_frame':
  "parse_base62_share (encode_base62 [1, 0, 0, 0, 1, 66]) = Inr (1, [])"
proof -
  have d: "decode_base62 (encode_base62 [1, 0, 0, 0, 1, 66]) = Inr [1, 0, 0, 0, 1, 66]"
    using decode_encode_general [of "[1, 0, 0, 0, 1, 66]"] by simp
  from d parse_current_format [OF d] show ?thesis
    by (simp add: from_bytes_def)
qed

lemmas encode_eval =
  encode_base62_def from_bytes_def encode_loop.simps BASE62_ALPHABET_def Let_def

lemma share_string_one_value: "encode_base62 [1, 0, 1, 0, 1, 65] = ''JMBR8Px''"
  by (simp add: encode_eval)

lemma share_string_no_value: "encode_base62 [1, 0, 0, 0, 1, 65] = ''JMAIjth''"
  by (simp add: encode_eval)

lemma share_string_no_value': "encode_base62 [1, 0, 0, 0, 1, 66] = ''JMAIjti''"
  by (simp add: encode_eval)

lemma parse_shares_pair:
  assumes "parse_base62_share s1 = Inr (sid1, v1)" "parse_base62_share s2 = Inr (sid2, v2)"
    "length v1 \<le> length v2"
  shows "parse_shares int16 [s1, s2] [] None =
           Inr ([(int sid1, map int v1), (int sid2, map int (take (length v1) v2))],
                Some (length v1))"
  using assms by (simp add: parse_share_def base62_attempt_def ebind_def)

lemma reconstruct_duplicate_pair:
  assumes "parse_base62_share s1 = Inr (sid, v1)" "parse_base62_share s2 = Inr (sid, v2)"
    "v1 \<noteq> []" "length v1 \<le> length v2"
  shows "reconstruct_secret int16 [s1, s2] = Inl DuplicateX"
proof -
  from assms(3,4) have "0 < length v1" "0 < length v2" by auto
  then have "v1 ! 0 \<in> set v1" "v2 ! 0 \<in> set v2" by (simp_all only: nth_mem)
  with parse_result_bytes [OF assms(1)] parse_result_bytes [OF assms(2)]
  have b: "sid < 256" "v1 ! 0 < 256" "v2 ! 0 < 256"
    by auto
  obtain n where n: "length v1 = Suc n" using assms(3) by (cases v1) simp_all
  have upt: "[0..<length v1] = 0 # [1..<length v1]"
    using n by (simp add: upt_rec)
  have "lagrange_interpolation [(int sid, int (v1 ! 0)), (int sid, int (v2 ! 0))] 0 = Inl DuplicateX"
    using b by (intro lagrange_interpolation_dup) (simp_all add: byte_points_def is_byte_def)
  then have "reconstruct_bytes
      [(int sid, map int v1), (int sid, map int (take (length v1) v2))]
      (0 # [1..<length v1]) [] = Inl DuplicateX"
    using assms(3,4) n by (simp add: ebind_def)
  then have "reconstruct_bytes
      [(int sid, map int v1), (int sid, map int (take (length v1) v2))]
      [0..<length v1] [] = Inl DuplicateX"
    by (simp only: upt)
  then show ?thesis
    unfolding reconstruct_secret_def parse_shares_pair [OF assms(1,2,4)]
    by (simp add: ebind_def)
qed

section \<open>Claims about parameters, share counts and duplicate ids\<close>

text \<open>
  C9: the split-path parameter validator accepts exactly when both arguments are integers
  with \<open>2 \<le> N \<le> 255\<close> and \<open>2 \<le> K \<le> N\<close>; in particular
  \<open>generate_shares("x", 300, 2)\<close> fails with the parameter error.
\<close>

theorem validate_params_exact:
  "(fst (validate_share_parameters N K) \<longleftrightarrow>
      (\<exists>n k. N = PyInt n \<and> K = PyInt k \<and> 2 \<le> n \<and> n \<le> 255 \<and> 2 \<le> k \<and> k \<le> n)) \<and>
   generate_shares rs [120] 300 2 pos = Inl (InvalidParams TotalSharesExceed255)"
  by (simp add: validate_share_parameters_iff)
    (simp add: generate_shares_def validate_share_parameters_def)

theorem validate_params_exact_witness:
  "fst (validate_share_parameters (PyInt 5) (PyInt 3)) \<and>
   \<not> fst (validate_share_parameters (PyInt 5) (PyInt 1)) \<and>
   \<not> fst (validate_share_parameters (PyBool True) (PyInt 2)) \<and>
   generate_shares (\<lambda>i. i) [120] 300 2 0 = Inl (InvalidParams TotalSharesExceed255)"
  using validate_params_exact [of "PyInt 5" "PyInt 3" "\<lambda>i. i" 0]
    validate_params_exact [of "PyInt 5" "PyInt 1" "\<lambda>i. i" 0]
    validate_params_exact [of "PyBool True" "PyInt 2" "\<lambda>i. i" 0]
  by simp

text \<open>
  C2: the claim is that reconstruction from fewer than two shares fails with the
  no-shares error. \<open>reconstruct_secret\<close> rejects only the empty list. On the
  one-element list holding the share string \<open>JMBR8Px\<close> (share id 1, \<open>L = 1\<close>,
  \<open>P = 1\<close>, value byte 65) it interpolates on the single point and returns the
  secret \<open>"A"\<close>.
\<close>

theorem reconstruct_one_share_returns:
  "reconstruct_secret int16 [] = Inl NoShares \<and>
   parse_base62_share ''JMBR8Px'' = Inr (1, [65]) \<and>
   reconstruct_secret int16 [''JMBR8Px''] = Inr [65]"
proof (intro conjI)
  show "reconstruct_secret int16 [] = Inl NoShares"
    by (simp add: reconstruct_secret_def)
  show p: "parse_base62_share ''JMBR8Px'' = Inr (1, [65])"
    using parse_small_frame by (simp only: share_string_one_value)
  show "reconstruct_secret int16 [''JMBR8Px''] = Inr [65]"
    using reconstruct_single [OF p, of int16] by (simp add: utf8_decode.simps ebind_def)
qed

text \<open>
  C7: the claim is that reconstruction from two parseable shares that carry the same
  share id fails with the duplicate error. The duplicate check sits in the interpolation
  of a byte position. On the two share strings \<open>JMAIjth\<close> and \<open>JMAIjti\<close>, both
  parseable with share id 1 and \<open>L = 0\<close>, no byte position is interpolated and the
  empty secret is returned.
\<close>

theorem reconstruct_duplicate_ids_returns:
  "parse_base62_share ''JMAIjth'' = Inr (1, []) \<and>
   parse_base62_share ''JMAIjti'' = Inr (1, []) \<and>
   reconstruct_secret int16 [''JMAIjth'', ''JMAIjti''] = Inr []"
proof (intro conjI)
  show p1: "parse_base62_share ''JMAIjth'' = Inr (1, [])"
    using parse_empty_frame by (simp only: share_string_no_value)
  show p2: "parse_base62_share ''JMAIjti'' = Inr (1, [])"
    using parse_empty_frame' by (simp only: share_string_no_value')
  have "parse_shares int16 [''JMAIjth'', ''JMAIjti''] [] None =
      Inr ([(int 1, map int []), (int 1, map int (take (length ([]::nat list)) []))],
           Some (length ([]::nat list)))"
    by (rule parse_shares_pair [OF p1 p2]) simp
  then show "reconstruct_secret int16 [''JMAIjth'', ''JMAIjti''] = Inr []"
    unfolding reconstruct_secret_def
    by (simp add: ebind_def bytes_of_def utf8_decode.simps)
qed

section \<open>What the split loops compute\<close>

text \<open>
  The value of share \<open>j\<close> at a byte position with coefficients \<open>cs\<close>, the share
  structure of share index \<open>k + 1\<close> after the positions with coefficients \<open>cfs\<close>, and
  the bytes framed for it.
\<close>

definition share_value :: "int list \<Rightarrow> nat \<Rightarrow> int" where
  "share_value cs j = of_gf (peval (map to_gf cs) (to_gf (int j)))"

definition share_row :: "int list list \<Rightarrow> nat \<Rightarrow> int list" where
  "share_row cfs k = int (Suc k) # map (\<lambda>cs. share_value cs (Suc k)) cfs"

definition share_rows :: "int list list \<Rightarrow> nat \<Rightarrow> int list list" where
  "share_rows cfs n = (if cfs = [] then [] else map (share_row cfs) [0..<n])"

definition share_frame :: "nat \<Rightarrow> int list list \<Rightarrow> nat \<Rightarrow> nat list" where
  "share_frame L cfs k =
     Suc k # to_bytes_digits L 2 @ to_bytes_digits (length cfs) 2 @
       map (\<lambda>cs. nat (share_value cs (Suc k))) cfs"

lemma share_value_byte: "is_byte (share_value cs j)"
  by (simp add: share_value_def of_gf_byte)

lemma random_fill_spec:
  "\<exists>vs. random_fill rs m pos buf = (buf @ vs, pos + m) \<and> length vs = m \<and>
        (\<forall>v\<in>set vs. 1 \<le> v \<and> v \<le> 255)"
proof (induction m arbitrary: pos buf)
  case 0
  then show ?case by simp
next
  case (Suc m)
  let ?v = "rs pos mod 255 + 1"
  from Suc [of "Suc pos" "buf @ [?v]"] obtain vs where
    vs: "random_fill rs m (Suc pos) (buf @ [?v]) = ((buf @ [?v]) @ vs, Suc pos + m)"
      "length vs = m" "\<forall>v\<in>set vs. 1 \<le> v \<and> v \<le> 255"
    by blast
  have "?v \<le> 255" using mod_less_divisor [of 255 "rs pos"] by simp
  with vs show ?case
    by (intro exI [of _ "?v # vs"]) (simp add: secure_random_int_def)
qed

lemma evaluate_share_value:
  assumes "\<forall>c\<in>set cs. is_byte c" "j < 256"
  shows "evaluate_polynomial cs (int j) = Inr (share_value cs j)"
  using assms by (simp add: share_value_def evaluate_polynomial_gf is_byte_def)

lemma share_loop_first:
  assumes "\<forall>c\<in>set cs. is_byte c" "n \<le> 255" "m \<le> n"
  shows "share_loop cs 0 (map int [Suc m..<Suc n]) shares =
           Inr (shares @ map (\<lambda>k. [int (Suc k), share_value cs (Suc k)]) [m..<n])"
  using assms(3)
proof (induction "n - m" arbitrary: m shares)
  case 0
  then show ?case by simp
next
  case (Suc d)
  then have m: "m < n" "d = n - Suc m" "Suc m \<le> n" by simp_all
  have u: "[Suc m..<Suc n] = Suc m # [Suc (Suc m)..<Suc n]" "[m..<n] = m # [Suc m..<n]"
    using m(1) by (simp_all add: upt_conv_Cons)
  have e: "evaluate_polynomial cs (int (Suc m)) = Inr (share_value cs (Suc m))"
    using assms(1,2) m(1) by (intro evaluate_share_value) simp_all
  show ?case
    unfolding u using Suc.hyps(1) [OF m(2,3), of "shares @ [[int (Suc m), share_value cs (Suc m)]]"] e
    by (simp add: ebind_def del: upt_Suc)
qed

lemma share_loop_next:
  assumes "\<forall>c\<in>set cs. is_byte c" "n \<le> 255" "m \<le> n" "bi \<noteq> 0" "length shares = n"
  shows "share_loop cs bi (map int [Suc m..<Suc n]) shares =
           Inr (map (\<lambda>k. if m \<le> k then shares ! k @ [share_value cs (Suc k)] else shares ! k)
                  [0..<n])"
  using assms(3,5)
proof (induction "n - m" arbitrary: m shares)
  case 0
  then have mn: "m = n" by simp
  have "map (\<lambda>k. if n \<le> k then shares ! k @ [share_value cs (Suc k)] else shares ! k) [0..<n] =
      map ((!) shares) [0..<n]"
    by (intro map_cong refl) simp
  also have "\<dots> = shares" using map_nth [of shares] "0.prems"(2) by simp
  finally show ?case using mn by simp
next
  case (Suc d)
  then have m: "m < n" "d = n - Suc m" "Suc m \<le> n" by simp_all
  have u: "[Suc m..<Suc n] = Suc m # [Suc (Suc m)..<Suc n]"
    using m(1) by (simp add: upt_conv_Cons)
  have e: "evaluate_polynomial cs (int (Suc m)) = Inr (share_value cs (Suc m))"
    using assms(1,2) m(1) by (intro evaluate_share_value) simp_all
  have p: "py_index shares (int (Suc m) - 1) = Inr (shares ! m)"
    using py_index_nat [of m shares] m(1) Suc.prems(2) by simp
  let ?s = "shares[m := shares ! m @ [share_value cs (Suc m)]]"
  have len: "length ?s = n" using Suc.prems(2) by simp
  have "share_loop cs bi (map int [Suc m..<Suc n]) shares =
      share_loop cs bi (map int [Suc (Suc m)..<Suc n]) ?s"
    unfolding u using e p assms(4) by (simp add: ebind_def del: upt_Suc)
  also have "\<dots> = Inr (map (\<lambda>k. if Suc m \<le> k then ?s ! k @ [share_value cs (Suc k)] else ?s ! k)
                  [0..<n])"
    by (rule Suc.hyps(1) [OF m(2,3) len])
  also have "map (\<lambda>k. if Suc m \<le> k then ?s ! k @ [share_value cs (Suc k)] else ?s ! k) [0..<n] =
      map (\<lambda>k. if m \<le> k then shares ! k @ [share_value cs (Suc k)] else shares ! k) [0..<n]"
  proof (intro map_cong refl)
    fix k assume "k \<in> set [0..<n]"
    then have k: "k < length shares" using Suc.prems(2) by simp
    consider "k < m" | "k = m" | "Suc m \<le> k" by linarith
    then show "(if Suc m \<le> k then ?s ! k @ [share_value cs (Suc k)] else ?s ! k) =
        (if m \<le> k then shares ! k @ [share_value cs (Suc k)] else shares ! k)"
      using k by cases (simp_all add: nth_list_update)
  qed
  finally show ?case .
qed

lemma share_loop_rows:
  assumes "\<forall>c\<in>set cs. is_byte c" "n \<le> 255" "shares = share_rows cfs n"
  shows "share_loop cs (length cfs) (map int [1..<Suc n]) shares = Inr (share_rows (cfs @ [cs]) n)"
proof (cases "cfs = []")
  case True
  with assms(3) have "shares = []" by (simp add: share_rows_def)
  with True share_loop_first [OF assms(1,2), of 0 "[]"] show ?thesis
    by (simp add: share_rows_def share_row_def del: upt_Suc)
next
  case False
  with assms(3) have s: "shares = map (share_row cfs) [0..<n]" by (simp add: share_rows_def)
  then have len: "length shares = n" by simp
  have "share_loop cs (length cfs) (map int [Suc 0..<Suc n]) shares =
      Inr (map (\<lambda>k. if 0 \<le> k then shares ! k @ [share_value cs (Suc k)] else shares ! k) [0..<n])"
    using False by (intro share_loop_next [OF assms(1,2) _ _ len]) simp_all
  also have "map (\<lambda>k. if 0 \<le> k then shares ! k @ [share_value cs (Suc k)] else shares ! k) [0..<n] =
      map (share_row (cfs @ [cs])) [0..<n]"
    by (intro map_cong refl) (simp add: s share_row_def)
  finally show ?thesis by (simp add: share_rows_def del: upt_Suc)
qed

text \<open>The coefficients of one byte position: the byte, then \<open>K - 1\<close> bytes.\<close>

definition coeffs_ok :: "int \<Rightarrow> nat \<Rightarrow> int list \<Rightarrow> bool" where
  "coeffs_ok K b cs = (length cs = nat K \<and> hd cs = int b \<and> (\<forall>c\<in>set cs. is_byte c))"

lemma byte_loop_spec:
  assumes "nat N \<le> 255" "1 \<le> K" "\<forall>b\<in>set bytes. b < 256" "shares = share_rows cfs (nat N)"
  shows "\<exists>cfs' pos'. byte_loop rs N K bytes (length cfs) pos shares =
            Inr (share_rows (cfs @ cfs') (nat N), pos') \<and>
          length cfs' = length bytes \<and> (\<forall>i<length bytes. coeffs_ok K (bytes ! i) (cfs' ! i))"
  using assms(3,4)
proof (induction bytes arbitrary: cfs pos shares)
  case Nil
  then show ?case by simp
next
  case (Cons b bytes)
  obtain vs where vs: "random_fill rs (nat (K - 1)) pos [] = ([] @ vs, pos + nat (K - 1))"
      "length vs = nat (K - 1)" "\<forall>v\<in>set vs. 1 \<le> v \<and> v \<le> 255"
    using random_fill_spec [of rs "nat (K - 1)" pos "[]"] by blast
  let ?cs = "int b # map int vs"
  have csb: "\<forall>c\<in>set ?cs. is_byte c"
    using vs(3) Cons.prems(1) by (auto simp: is_byte_def)
  have ok: "coeffs_ok K b ?cs"
    using csb vs(2) assms(2) by (simp add: coeffs_ok_def)
  have sl: "share_loop ?cs (length cfs) (map int [1..<Suc (nat N)]) shares =
      Inr (share_rows (cfs @ [?cs]) (nat N))"
    using csb assms(1) Cons.prems(2) by (rule share_loop_rows)
  from Cons.IH [of "share_rows (cfs @ [?cs]) (nat N)" "cfs @ [?cs]" "pos + nat (K - 1)"] Cons.prems(1)
  obtain cfs' pos' where r:
    "byte_loop rs N K bytes (length (cfs @ [?cs])) (pos + nat (K - 1)) (share_rows (cfs @ [?cs]) (nat N)) =
       Inr (share_rows ((cfs @ [?cs]) @ cfs') (nat N), pos')"
    "length cfs' = length bytes" "\<forall>i<length bytes. coeffs_ok K (bytes ! i) (cfs' ! i)"
    by auto
  have "byte_loop rs N K (b # bytes) (length cfs) pos shares =
      Inr (share_rows (cfs @ (?cs # cfs')) (nat N), pos')"
    using vs(1) sl r(1) by (simp add: ebind_def del: upt_Suc)
  moreover have "\<forall>i<length (b # bytes). coeffs_ok K ((b # bytes) ! i) ((?cs # cfs') ! i)"
    using ok r(3) by (auto simp: nth_Cons split: nat.splits)
  ultimately show ?case
    using r(2) by (intro exI [of _ "?cs # cfs'"] exI [of _ pos']) simp
qed

section \<open>What \<open>generate_shares\<close> returns\<close>

definition split_coeffs :: "int \<Rightarrow> nat list \<Rightarrow> int list list \<Rightarrow> bool" where
  "split_coeffs K bs cfs =
     (200 \<le> length cfs \<and> length bs \<le> length cfs \<and> length cfs < 65536 \<and>
      (\<forall>i<length cfs. length (cfs ! i) = nat K \<and> (\<forall>c\<in>set (cfs ! i). is_byte c)) \<and>
      (\<forall>i<length bs. hd (cfs ! i) = int (bs ! i)))"

lemma utf8_encode_cp_length: "utf8_encode_cp c = Inr cb \<Longrightarrow> length cb \<le> 4"
  by (auto simp: utf8_encode_cp_def split: if_splits)

lemma utf8_encode_length: "utf8_encode s = Inr bs \<Longrightarrow> length bs \<le> 4 * length s"
proof (induction s arbitrary: bs)
  case Nil
  then show ?case by simp
next
  case (Cons c cs)
  then obtain cb rest where e: "utf8_encode_cp c = Inr cb" "utf8_encode cs = Inr rest" "bs = cb @ rest"
    by (auto simp: ebind_def split: sum.splits)
  from utf8_encode_cp_length [OF e(1)] Cons.IH [OF e(2)] e(3) show ?case by simp
qed

lemma bytes_of_share_values:
  "bytes_of (map (\<lambda>cs. share_value cs j) cfs) = Inr (map (\<lambda>cs. nat (share_value cs j)) cfs)"
  using share_value_byte by (auto simp: bytes_of_def is_byte_def comp_def)

lemma nat_1_int: "nat (1 + int m) = Suc m"
  by simp

lemma encode_shares_rows:
  assumes "182 \<le> length cfs" "length cfs < 65536" "L < 65536" "n \<le> 255" "m \<le> n"
  shows "encode_shares rs (map (share_row cfs) [m..<n]) L pos acc =
           Inr (acc @ map (\<lambda>k. encode_base62 (share_frame L cfs k)) [m..<n], pos)"
  using assms(5)
proof (induction "n - m" arbitrary: m acc)
  case 0
  then show ?case by simp
next
  case (Suc d)
  then have m: "m < n" "d = n - Suc m" "Suc m \<le> n" by simp_all
  have u: "[m..<n] = m # [Suc m..<n]" using m(1) by (simp add: upt_conv_Cons)
  have f: "format_share_with_original_length rs (int (Suc m))
        (map (\<lambda>cs. nat (share_value cs (Suc m))) cfs) L pos =
      Inr (encode_base62 (share_frame L cfs m), pos)"
    using format_long_frame [of "int (Suc m)" L "map (\<lambda>cs. nat (share_value cs (Suc m))) cfs" rs pos]
      assms(1-4) m(1)
    by (simp add: share_frame_def del: to_bytes_digits.simps of_nat_Suc)
  show ?case
    unfolding u
    using Suc.hyps(1) [OF m(2,3), of "acc @ [encode_base62 (share_frame L cfs m)]"]
    by (simp add: share_row_def bytes_of_share_values f ebind_def del: upt_Suc of_nat_Suc)
qed

lemma generate_shares_spec:
  assumes "S \<noteq> []" "length S \<le> 10000" "0 \<notin> set S" "utf8_encode S = Inr bs"
    "2 \<le> K" "K \<le> N" "N \<le> 255"
  shows "\<exists>cfs pos'. generate_shares rs S N K pos =
            Inr (map (\<lambda>k. encode_base62 (share_frame (length bs) cfs k)) [0..<nat N], pos') \<and>
          split_coeffs K bs cfs"
proof -
  have vp: "validate_share_parameters (PyInt N) (PyInt K) = (True, NoMessage)"
    using assms(5-7) by (simp add: validate_share_parameters_def)
  have vs: "validate_secret_length S 1 10000 = (True, NoMessage)"
    using assms(1-3) by (cases S) (simp_all add: validate_secret_length_def)
  have bb: "\<forall>b\<in>set bs. b < 256" using utf8_encode_shape [OF assms(4)] by simp
  have bl: "length bs \<le> 40000" using utf8_encode_length [OF assms(4)] assms(2) by simp
  obtain padded pos1 where pad:
    "generate_shares rs S N K pos =
       ebind (byte_loop rs N K padded 0 pos1 [])
         (\<lambda>(shares, pos2). encode_shares rs shares (length bs) pos2 [])"
    and pp: "200 \<le> length padded" "length padded \<le> 40000" "\<forall>b\<in>set padded. b < 256"
      "take (length bs) padded = bs"
  proof (cases "length bs < 200")
    case True
    obtain vs where v: "random_fill rs (200 - length bs) pos [] = ([] @ vs, pos + (200 - length bs))"
        "length vs = 200 - length bs" "\<forall>v\<in>set vs. 1 \<le> v \<and> v \<le> 255"
      using random_fill_spec [of rs "200 - length bs" pos "[]"] by blast
    show ?thesis
    proof (rule that [of "bs @ vs" "pos + (200 - length bs)"])
      show "generate_shares rs S N K pos =
          ebind (byte_loop rs N K (bs @ vs) 0 (pos + (200 - length bs)) [])
            (\<lambda>(shares, pos2). encode_shares rs shares (length bs) pos2 [])"
        unfolding generate_shares_def vp vs
        using True v(1) by (simp add: assms(4) ebind_def Let_def)
      show "200 \<le> length (bs @ vs)" "length (bs @ vs) \<le> 40000" using True v(2) by simp_all
      show "\<forall>b\<in>set (bs @ vs). b < 256" using bb v(3) by auto
      show "take (length bs) (bs @ vs) = bs" by simp
    qed
  next
    case False
    show ?thesis
    proof (rule that [of bs pos])
      show "generate_shares rs S N K pos =
          ebind (byte_loop rs N K bs 0 pos [])
            (\<lambda>(shares, pos2). encode_shares rs shares (length bs) pos2 [])"
        unfolding generate_shares_def vp vs
        using False by (simp add: assms(4) ebind_def Let_def)
    qed (use False bb bl in simp_all)
  qed
  have n: "nat N \<le> 255" using assms(7) by simp
  obtain cfs pos2 where bl2:
    "byte_loop rs N K padded (length ([] :: int list list)) pos1 [] =
       Inr (share_rows ([] @ cfs) (nat N), pos2)"
    "length cfs = length padded" "\<forall>i<length padded. coeffs_ok K (padded ! i) (cfs ! i)"
    using byte_loop_spec [OF n _ pp(3), of K "[]" "[]" rs pos1] assms(5)
    by (auto simp: share_rows_def)
  have ne: "cfs \<noteq> []" using bl2(2) pp(1) by auto
  have es: "encode_shares rs (map (share_row cfs) [0..<nat N]) (length bs) pos2 [] =
      Inr ([] @ map (\<lambda>k. encode_base62 (share_frame (length bs) cfs k)) [0..<nat N], pos2)"
    using bl2(2) pp(1,2) bl n by (intro encode_shares_rows) simp_all
  have gen: "generate_shares rs S N K pos =
      Inr (map (\<lambda>k. encode_base62 (share_frame (length bs) cfs k)) [0..<nat N], pos2)"
    unfolding pad using bl2(1) es ne
    by (simp add: ebind_def share_rows_def del: upt_Suc)
  have "length (take (length bs) padded) = length bs" by (simp only: pp(4))
  then have len: "length bs \<le> length padded" by simp
  have hd: "\<forall>i<length bs. hd (cfs ! i) = int (bs ! i)"
  proof (intro allI impI)
    fix i assume i: "i < length bs"
    then have "coeffs_ok K (padded ! i) (cfs ! i)" using bl2(3) len by simp
    moreover have "padded ! i = bs ! i"
      using i pp(4) by (metis nth_take)
    ultimately show "hd (cfs ! i) = int (bs ! i)" by (simp add: coeffs_ok_def)
  qed
  have "split_coeffs K bs cfs"
    unfolding split_coeffs_def
    using bl2(2,3) pp(1,2) len hd by (auto simp: coeffs_ok_def)
  with gen show ?thesis by blast
qed

lemma encode_base62_alphabet: "set (encode_base62 v) \<subseteq> set BASE62_ALPHABET"
  using encode_loop_alphabet [of "from_bytes v"] digit_in_alphabet [of 0]
  by (simp add: encode_base62_def Let_def)

lemma share_frame_props:
  assumes "split_coeffs K bs cfs" "k < 255"
  shows "250 \<le> length (encode_base62 (share_frame (length bs) cfs k))"
    and "parse_base62_share (encode_base62 (share_frame (length bs) cfs k)) =
           Inr (Suc k, take (length bs) (map (\<lambda>cs. nat (share_value cs (Suc k))) cfs))"
proof -
  from assms(1) have P: "200 \<le> length cfs" "length cfs < 65536" "length bs \<le> length cfs"
    by (simp_all add: split_coeffs_def)
  show "250 \<le> length (encode_base62 (share_frame (length bs) cfs k))"
    unfolding share_frame_def using P
    by (intro long_frame_encoding) (simp_all add: to_bytes_digits_length del: to_bytes_digits.simps)
  have vb: "\<forall>b\<in>set (map (\<lambda>cs. nat (share_value cs (Suc k))) cfs). b < 256"
    using share_value_byte by (auto simp: is_byte_def nat_less_iff)
  show "parse_base62_share (encode_base62 (share_frame (length bs) cfs k)) =
           Inr (Suc k, take (length bs) (map (\<lambda>cs. nat (share_value cs (Suc k))) cfs))"
    using parse_frame [of "int (Suc k)" "length bs" "map (\<lambda>cs. nat (share_value cs (Suc k))) cfs"]
      P assms(2) vb
    by (simp add: share_frame_def nat_1_int del: to_bytes_digits.simps)
qed

section \<open>Claim about the generated share set\<close>

text \<open>
  C5: for every accepted secret (one that passes the secret validator and has a UTF-8
  encoding) and valid \<open>(N, K)\<close>, \<open>generate_shares\<close> returns; every share string it
  returns has at least 250 characters, all from the Base62 alphabet, and the share ids
  of the returned strings are exactly \<open>1, \<dots>, N\<close> in this order.
\<close>

theorem generated_shares_well_formed:
  assumes "fst (validate_share_parameters (PyInt N) (PyInt K))"
    "fst (validate_secret_length S 1 10000)" "utf8_encode S = Inr bs"
  shows "\<exists>shares pos'. generate_shares rs S N K pos = Inr (shares, pos') \<and>
           (\<forall>s\<in>set shares. 250 \<le> length s \<and> set s \<subseteq> set BASE62_ALPHABET) \<and>
           map (\<lambda>s. map_sum id fst (parse_base62_share s)) shares = map Inr [1..<Suc (nat N)]"
proof -
  from assms(1) have nk: "2 \<le> K" "K \<le> N" "N \<le> 255"
    by (simp_all add: validate_share_parameters_iff)
  from assms(2) have s: "S \<noteq> []" "length S \<le> 10000" "0 \<notin> set S"
    by (auto simp: validate_secret_length_def split: if_splits)
  from generate_shares_spec [OF s assms(3) nk, of rs pos] obtain cfs pos' where
    g: "generate_shares rs S N K pos =
          Inr (map (\<lambda>k. encode_base62 (share_frame (length bs) cfs k)) [0..<nat N], pos')"
    and c: "split_coeffs K bs cfs"
    by blast
  let ?shares = "map (\<lambda>k. encode_base62 (share_frame (length bs) cfs k)) [0..<nat N]"
  have k: "k < nat N \<Longrightarrow> k < 255" for k using nk(3) by simp
  have "\<forall>s\<in>set ?shares. 250 \<le> length s \<and> set s \<subseteq> set BASE62_ALPHABET"
    using share_frame_props(1) [OF c k] encode_base62_alphabet by auto
  moreover have "map (\<lambda>s. map_sum id fst (parse_base62_share s)) ?shares = map Inr [1..<Suc (nat N)]"
  proof -
    have "map (\<lambda>s. map_sum id fst (parse_base62_share s)) ?shares = map (\<lambda>k. Inr (Suc k)) [0..<nat N]"
      using share_frame_props(2) [OF c k] by (simp add: comp_def del: upt_Suc)
    also have "\<dots> = map Inr (map Suc [0..<nat N])" by (simp add: comp_def del: upt_Suc)
    also have "map Suc [0..<nat N] = [1..<Suc (nat N)]"
      using map_Suc_upt [of 0 "nat N"] by simp
    finally show ?thesis .
  qed
  ultimately show ?thesis using g by blast
qed

theorem generated_shares_well_formed_witness:
  "fst (validate_share_parameters (PyInt 3) (PyInt 2)) \<and>
   fst (validate_secret_length [72, 105] 1 10000) \<and> utf8_encode [72, 105] = Inr [72, 105] \<and>
   (\<exists>shares pos'. generate_shares (\<lambda>i. i) [72, 105] 3 2 0 = Inr (shares, pos') \<and>
      list_all (\<lambda>s. 250 \<le> length s \<and> list_all (\<lambda>c. c \<in> set BASE62_ALPHABET) s) shares \<and>
      map (\<lambda>s. map_sum id fst (parse_base62_share s)) shares = [Inr 1, Inr 2, Inr 3])"
proof -
  have h: "fst (validate_share_parameters (PyInt 3) (PyInt 2))"
    "fst (validate_secret_length [72, 105] 1 10000)" "utf8_encode [72, 105] = Inr [72, 105]"
    by (simp_all add: validate_share_parameters_def validate_secret_length_def
        utf8_encode_cp_def ebind_def)
  have u: "[1..<Suc (nat 3)] = [1, 2, 3]" by (simp add: upt_rec)
  from generated_shares_well_formed [OF h, of "\<lambda>i. i" 0] h show ?thesis
    unfolding u by (simp only: list_all_iff subset_eq list.map)
qed

section \<open>Reconstruction from generated shares\<close>

lemma parse_shares_indexed:
  assumes "\<forall>k\<in>set idx. parse_base62_share (enc k) = Inr (sid k, tv k) \<and> length (tv k) = L"
    "sl = None \<or> sl = Some L"
  shows "parse_shares int16 (map enc idx) acc sl =
           Inr (acc @ map (\<lambda>k. (int (sid k), map int (tv k))) idx,
                if idx = [] then sl else Some L)"
  using assms
proof (induction idx arbitrary: acc sl)
  case Nil
  then show ?case by simp
next
  case (Cons k idx)
  then have p: "parse_base62_share (enc k) = Inr (sid k, tv k)" "length (tv k) = L" by simp_all
  have "parse_share int16 (enc k) sl = Inr ((int (sid k), map int (tv k)), Some L)"
    using p Cons.prems(2) by (auto simp: parse_share_def base62_attempt_def ebind_def)
  moreover have "parse_shares int16 (map enc idx) (acc @ [(int (sid k), map int (tv k))]) (Some L) =
      Inr ((acc @ [(int (sid k), map int (tv k))]) @ map (\<lambda>k. (int (sid k), map int (tv k))) idx,
           if idx = [] then Some L else Some L)"
    using Cons.prems(1) by (intro Cons.IH) simp_all
  ultimately show ?case by (simp add: ebind_def)
qed

lemma collect_points_indexed:
  assumes "\<forall>k\<in>set idx. b < length (tv k)"
  shows "collect_points (map (\<lambda>k. (sid k, tv k)) idx) b = Inr (map (\<lambda>k. (sid k, tv k ! b)) idx)"
  using assms by (induction idx) (simp_all add: ebind_def)

lemma reconstruct_bytes_values:
  assumes "\<forall>b\<in>set bl. \<exists>points. collect_points parsed b = Inr points \<and>
             lagrange_interpolation points 0 = Inr (g b)"
  shows "reconstruct_bytes parsed bl acc = Inr (acc @ map g bl)"
  using assms
proof (induction bl arbitrary: acc)
  case Nil
  then show ?case by simp
next
  case (Cons b bl)
  then obtain points where "collect_points parsed b = Inr points"
      "lagrange_interpolation points 0 = Inr (g b)"
    by auto
  with Cons show ?case by (simp add: ebind_def)
qed

lemma peval_0: "peval cs 0 = (if cs = [] then 0 else hd cs)" for cs :: "'a::field list"
  by (cases cs) simp_all

text \<open>
  Interpolating at zero the values that at least \<open>length cs\<close> distinct share indices
  take on the polynomial with coefficients \<open>cs\<close> gives back its constant term.
\<close>

lemma interpolate_share_values:
  assumes "\<forall>c\<in>set cs. is_byte c" "cs \<noteq> []" "distinct idx" "\<forall>k\<in>set idx. k < 255"
    "length cs \<le> length idx"
  shows "lagrange_interpolation (map (\<lambda>k. (int (Suc k), share_value cs (Suc k))) idx) 0 =
           Inr (hd cs)"
proof -
  let ?pts = "map (\<lambda>k. (int (Suc k), share_value cs (Suc k))) idx"
  let ?xs = "map (\<lambda>k. to_gf (int (Suc k))) idx"
  let ?f = "map to_gf cs"
  have ne: "?pts \<noteq> []" using assms(2,5) by auto
  have bp: "byte_points ?pts"
    using assms(4) share_value_byte by (auto simp: byte_points_def is_byte_def)
  have "inj_on (\<lambda>k. int (Suc k)) (set idx)" by (simp add: inj_on_def)
  with assms(3) have d1: "distinct (map (\<lambda>k. int (Suc k)) idx)"
    by (simp add: distinct_map)
  then have d: "distinct (map fst ?pts)" by (simp add: comp_def)
  have "inj_on (\<lambda>k. to_gf (int (Suc k))) (set idx)"
  proof (rule inj_onI)
    fix a b assume "a \<in> set idx" "b \<in> set idx" "to_gf (int (Suc a)) = to_gf (int (Suc b))"
    then have "int (Suc a) = int (Suc b)"
      using assms(4) by (intro to_gf_inj) (simp_all add: is_byte_def)
    then show "a = b" by simp
  qed
  with assms(3) have dx: "distinct ?xs" by (simp add: distinct_map)
  have xs: "map (\<lambda>p. to_gf (fst p)) ?pts = ?xs" by (simp add: comp_def)
  have ps: "map gf_point ?pts = map (\<lambda>xi. (xi, peval ?f xi)) ?xs"
    by (simp add: comp_def gf_point_def share_value_def to_of_gf)
  have "lagrange_interpolation ?pts 0 =
      Inr (of_gf (linterp ?xs (map (\<lambda>xi. (xi, peval ?f xi)) ?xs) (to_gf 0)))"
    using lagrange_interpolation_gf [OF bp is_byte_0 d ne] by (simp only: xs ps)
  also have "linterp ?xs (map (\<lambda>xi. (xi, peval ?f xi)) ?xs) (to_gf 0) = peval ?f (to_gf 0)"
    using dx assms(5) by (intro lagrange_field) simp_all
  also have "peval ?f (to_gf 0) = to_gf (hd cs)"
    using assms(2) by (simp add: to_gf_0 peval_0 hd_map)
  finally show ?thesis
    using assms(1,2) by (simp add: of_to_gf)
qed

lemma reconstruct_generated:
  assumes "split_coeffs K bs cfs" "1 \<le> K" "distinct idx" "\<forall>k\<in>set idx. k < 255"
    "nat K \<le> length idx" "\<forall>b\<in>set bs. b < 256" "bs \<noteq> []"
  shows "reconstruct_secret int16
           (map (\<lambda>k. encode_base62 (share_frame (length bs) cfs k)) idx) =
         (case utf8_decode bs of Inl e \<Rightarrow> Inl BadUtf8 | Inr secret \<Rightarrow> Inr secret)"
proof -
  let ?L = "length bs"
  let ?enc = "\<lambda>k. encode_base62 (share_frame ?L cfs k)"
  let ?tv = "\<lambda>k. take ?L (map (\<lambda>cs. nat (share_value cs (Suc k))) cfs)"
  from assms(1) have P: "?L \<le> length cfs"
    and cf: "\<And>i. i < length cfs \<Longrightarrow> length (cfs ! i) = nat K \<and> (\<forall>c\<in>set (cfs ! i). is_byte c)"
    and hd: "\<And>i. i < ?L \<Longrightarrow> hd (cfs ! i) = int (bs ! i)"
    by (simp_all add: split_coeffs_def)
  have ne: "idx \<noteq> []" using assms(2,5) by auto
  have pr: "\<forall>k\<in>set idx. parse_base62_share (?enc k) = Inr (Suc k, ?tv k) \<and> length (?tv k) = ?L"
    using share_frame_props(2) [OF assms(1)] assms(4) P by simp
  have ps: "parse_shares int16 (map ?enc idx) [] None =
      Inr ([] @ map (\<lambda>k. (int (Suc k), map int (?tv k))) idx, if idx = [] then None else Some ?L)"
    using pr by (intro parse_shares_indexed) simp_all
  let ?parsed = "map (\<lambda>k. (int (Suc k), map int (?tv k))) idx"
  have val: "map int (?tv k) ! b = share_value (cfs ! b) (Suc k)" if "b < ?L" for b k
  proof -
    have "map int (?tv k) ! b = int (nat (share_value (cfs ! b) (Suc k)))"
      using that P by simp
    then show ?thesis using share_value_byte [of "cfs ! b" "Suc k"] by (simp add: is_byte_def)
  qed
  have rb: "reconstruct_bytes ?parsed [0..<?L] [] = Inr ([] @ map (\<lambda>b. int (bs ! b)) [0..<?L])"
  proof (rule reconstruct_bytes_values, intro ballI)
    fix b assume "b \<in> set [0..<?L]"
    then have b: "b < ?L" by simp
    then have bc: "b < length cfs" using P by simp
    have "collect_points ?parsed b = Inr (map (\<lambda>k. (int (Suc k), map int (?tv k) ! b)) idx)"
      using b P by (intro collect_points_indexed) simp
    also have "map (\<lambda>k. (int (Suc k), map int (?tv k) ! b)) idx =
        map (\<lambda>k. (int (Suc k), share_value (cfs ! b) (Suc k))) idx"
      using val [OF b] by simp
    finally have c: "collect_points ?parsed b =
        Inr (map (\<lambda>k. (int (Suc k), share_value (cfs ! b) (Suc k))) idx)" .
    have cne: "cfs ! b \<noteq> []" using cf [OF bc] assms(2) by auto
    have "lagrange_interpolation (map (\<lambda>k. (int (Suc k), share_value (cfs ! b) (Suc k))) idx) 0 =
        Inr (hd (cfs ! b))"
      using cf [OF bc] cne assms(3,4,5) by (intro interpolate_share_values) simp_all
    with c hd [OF b]
    show "\<exists>points. collect_points ?parsed b = Inr points \<and>
        lagrange_interpolation points 0 = Inr (int (bs ! b))"
      by simp
  qed
  have "map (\<lambda>b. int (bs ! b)) [0..<?L] = map int (map ((!) bs) [0..<?L])" by (simp add: comp_def)
  also have "\<dots> = map int bs" by (simp only: map_nth)
  finally have rb': "reconstruct_bytes ?parsed [0..<?L] [] = Inr (map int bs)"
    using rb by simp
  show ?thesis
    unfolding reconstruct_secret_def ps
    using ne assms(6) by (simp add: ebind_def rb' bytes_of_int del: of_nat_Suc)
qed

section \<open>The round trip\<close>

text \<open>
  C1: for every secret \<open>S\<close> that has a UTF-8 encoding of 1 to 10 000 bytes and no NUL,
  all \<open>2 \<le> K \<le> N \<le> 255\<close> and every entropy stream, \<open>generate_shares\<close> returns \<open>N\<close>
  share strings, and reconstruction from any \<open>K\<close> distinct ones of them, in any order,
  returns exactly \<open>S\<close>.
\<close>

theorem split_combine_roundtrip:
  assumes "utf8_encode S = Inr bs" "1 \<le> length bs" "length bs \<le> 10000" "0 \<notin> set S"
    "2 \<le> K" "K \<le> N" "N \<le> 255"
  shows "\<exists>shares pos'. generate_shares rs S N K pos = Inr (shares, pos') \<and>
           length shares = nat N \<and>
           (\<forall>idx. distinct idx \<and> set idx \<subseteq> {..<nat N} \<and> length idx = nat K \<longrightarrow>
                  reconstruct_secret int16 (map ((!) shares) idx) = Inr S)"
proof -
  have sh: "length S \<le> length bs" "\<forall>b\<in>set bs. b < 256" "S \<noteq> []" "bs \<noteq> []"
    using utf8_encode_shape [OF assms(1)] assms(2) by auto
  then have sl: "length S \<le> 10000" using assms(3) by simp
  from generate_shares_spec [OF sh(3) sl assms(4,1,5,6,7), of rs pos] obtain cfs pos' where
    g: "generate_shares rs S N K pos =
          Inr (map (\<lambda>k. encode_base62 (share_frame (length bs) cfs k)) [0..<nat N], pos')"
    and c: "split_coeffs K bs cfs"
    by blast
  let ?shares = "map (\<lambda>k. encode_base62 (share_frame (length bs) cfs k)) [0..<nat N]"
  have "reconstruct_secret int16 (map ((!) ?shares) idx) = Inr S"
    if "distinct idx \<and> set idx \<subseteq> {..<nat N} \<and> length idx = nat K" for idx
  proof -
    from that have i: "distinct idx" "\<forall>k\<in>set idx. k < nat N" "length idx = nat K" by auto
    then have k: "\<forall>k\<in>set idx. k < 255" using assms(7) by auto
    have m: "map ((!) ?shares) idx = map (\<lambda>k. encode_base62 (share_frame (length bs) cfs k)) idx"
      using i(2) by (intro map_cong refl) simp
    have r: "reconstruct_secret int16
        (map (\<lambda>k. encode_base62 (share_frame (length bs) cfs k)) idx) =
        (case utf8_decode bs of Inl e \<Rightarrow> Inl BadUtf8 | Inr secret \<Rightarrow> Inr secret)"
    proof (rule reconstruct_generated [OF c _ i(1) k _ sh(2,4)])
      show "1 \<le> K" using assms(5) by simp
      show "nat K \<le> length idx" using i(3) by simp
    qed
    show ?thesis
      unfolding m r using utf8_roundtrip [OF assms(1)] by simp
  qed
  then show ?thesis using g by (intro exI [of _ ?shares] exI [of _ pos']) simp
qed

theorem split_combine_roundtrip_witness:
  "utf8_encode [72, 105] = Inr [72, 105] \<and> 1 \<le> length [72, 105 :: nat] \<and>
   length [72, 105 :: nat] \<le> 10000 \<and> 0 \<notin> set [72, 105 :: nat] \<and>
   (2::int) \<le> 2 \<and> (2::int) \<le> 3 \<and> (3::int) \<le> 255 \<and>
   (\<exists>shares pos'. generate_shares (\<lambda>i. 7 * i + 3) [72, 105] 3 2 0 = Inr (shares, pos') \<and>
      length shares = 3 \<and>
      distinct [2, 0 :: nat] \<and> list_all (\<lambda>k. k < 3) [2, 0 :: nat] \<and> length [2, 0 :: nat] = 2 \<and>
      reconstruct_secret (\<lambda>s. None) [shares ! 2, shares ! 0] = Inr [72, 105])"
proof -
  have h: "utf8_encode [72, 105] = Inr [72, 105]" "1 \<le> length [72, 105 :: nat]"
    "length [72, 105 :: nat] \<le> 10000" "0 \<notin> set [72, 105 :: nat]"
    "(2::int) \<le> 2" "(2::int) \<le> 3" "(3::int) \<le> 255"
    by (simp_all add: utf8_encode_cp_def ebind_def)
  from split_combine_roundtrip [OF h, of "\<lambda>i. 7 * i + 3" 0 "\<lambda>s. None"]
  obtain shares pos' where
    g: "generate_shares (\<lambda>i. 7 * i + 3) [72, 105] 3 2 0 = Inr (shares, pos')"
      "length shares = nat 3"
    and r: "\<And>idx. distinct idx \<and> set idx \<subseteq> {..<nat 3} \<and> length idx = nat 2 \<Longrightarrow>
      reconstruct_secret (\<lambda>s. None) (map ((!) shares) idx) = Inr [72, 105]"
    by blast
  have "reconstruct_secret (\<lambda>s. None) (map ((!) shares) [2, 0]) = Inr [72, 105]"
    by (rule r) simp
  with g h show ?thesis by (intro conjI exI [of _ shares] exI [of _ pos']) simp_all
qed

end
